theory Spec2Isabelle
  imports Complex_Main "HOL-Library.Product_Lexorder"
begin

section \<open>Python values\<close>

text \<open>
  A Python \<open>str\<close> is the sequence of its code points; \<open>lit\<close> writes an ASCII literal
  of the source, such as \<open>"message"\<close>, as such a sequence.
\<close>

type_synonym str = "nat list"

definition lit :: "string \<Rightarrow> str" where
  "lit s = map of_char s"

text \<open>
  What \<open>response.json()\<close> returns: \<open>None\<close>, a \<open>bool\<close>, a number, a \<open>str\<close>, a \<open>list\<close> or a
  \<open>dict\<close> with \<open>str\<close> keys. \<open>JNull\<close> is Python's \<open>None\<close>. A number is an \<open>int\<close> or a
  \<open>float\<close>; the program only ever tests one for truth, so a rational stands for both
  (a NaN or an infinity behaves as any non-zero number does). A \<open>dict\<close> is an association
  list: its lookup is \<open>map_of\<close>, its keys in order are \<open>dict_keys\<close>.
\<close>

datatype json =
    JNull
  | JBool bool
  | JNum rat
  | JStr str
  | JArr "json list"
  | JObj "(str \<times> json) list"

text \<open>
  The exceptions of the program. \<open>RequestException\<close> stands for the class
  \<open>requests.RequestException\<close> with its subclasses (\<open>ConnectionError\<close>, \<open>Timeout\<close>,
  \<open>HTTPError\<close>, ...), the only one \<open>search_doi\<close> catches; \<open>OtherException\<close> for any
  exception outside the classes named here (an \<open>OSError\<close> of a file, for one).
\<close>

datatype exn =
    RequestException
  | TypeError
  | AttributeError
  | KeyError
  | IndexError
  | OtherException

definition dict_keys :: "(str \<times> json) list \<Rightarrow> str list" where
  "dict_keys kvs = remdups (map fst kvs)"

fun startswith :: "'a list \<Rightarrow> 'a list \<Rightarrow> bool" where
  "startswith s [] = True"
| "startswith [] (c # sub) = False"
| "startswith (x # s) (c # sub) = (x = c \<and> startswith s sub)"

fun str_contains :: "'a list \<Rightarrow> 'a list \<Rightarrow> bool" where
  "str_contains [] sub = (sub = [])"
| "str_contains (x # s) sub = (startswith (x # s) sub \<or> str_contains s sub)"

text \<open>\<open>key in x\<close> for a \<open>str\<close> key: membership in a \<open>dict\<close>'s keys, in a \<open>list\<close>'s
  elements, substring of a \<open>str\<close>; a \<open>TypeError\<close> on a value that is not a container.\<close>

fun py_in :: "str \<Rightarrow> json \<Rightarrow> exn + bool" where
  "py_in key (JObj kvs) = Inr (key \<in> set (map fst kvs))"
| "py_in key (JArr xs) = Inr (JStr key \<in> set xs)"
| "py_in key (JStr s) = Inr (str_contains s key)"
| "py_in key JNull = Inl TypeError"
| "py_in key (JBool b) = Inl TypeError"
| "py_in key (JNum n) = Inl TypeError"

text \<open>\<open>x[key]\<close> for a \<open>str\<close> key: the value in a \<open>dict\<close> (\<open>KeyError\<close> when absent); a
  \<open>TypeError\<close> on a \<open>list\<close> or a \<open>str\<close> (their indices must be integers) and on a value that
  is not subscriptable.\<close>

fun py_getitem :: "json \<Rightarrow> str \<Rightarrow> exn + json" where
  "py_getitem (JObj kvs) key = (case map_of kvs key of Some v \<Rightarrow> Inr v | None \<Rightarrow> Inl KeyError)"
| "py_getitem (JArr xs) key = Inl TypeError"
| "py_getitem (JStr s) key = Inl TypeError"
| "py_getitem JNull key = Inl TypeError"
| "py_getitem (JBool b) key = Inl TypeError"
| "py_getitem (JNum n) key = Inl TypeError"

text \<open>\<open>len(x)\<close>.\<close>

fun py_len :: "json \<Rightarrow> exn + nat" where
  "py_len (JObj kvs) = Inr (length (dict_keys kvs))"
| "py_len (JArr xs) = Inr (length xs)"
| "py_len (JStr s) = Inr (length s)"
| "py_len JNull = Inl TypeError"
| "py_len (JBool b) = Inl TypeError"
| "py_len (JNum n) = Inl TypeError"

text \<open>\<open>x[0]\<close>: the first element of a \<open>list\<close>, the first character of a \<open>str\<close>; on a
  \<open>dict\<close> a \<open>KeyError\<close>, since every key of a decoded JSON object is a \<open>str\<close>.\<close>

fun py_getitem0 :: "json \<Rightarrow> exn + json" where
  "py_getitem0 (JArr []) = Inl IndexError"
| "py_getitem0 (JArr (x # xs)) = Inr x"
| "py_getitem0 (JStr []) = Inl IndexError"
| "py_getitem0 (JStr (c # s)) = Inr (JStr [c])"
| "py_getitem0 (JObj kvs) = Inl KeyError"
| "py_getitem0 JNull = Inl TypeError"
| "py_getitem0 (JBool b) = Inl TypeError"
| "py_getitem0 (JNum n) = Inl TypeError"

text \<open>\<open>x.get(key, default)\<close>: a method of \<open>dict\<close> only.\<close>

fun py_get :: "json \<Rightarrow> str \<Rightarrow> json \<Rightarrow> exn + json" where
  "py_get (JObj kvs) key dflt = Inr (case map_of kvs key of Some v \<Rightarrow> v | None \<Rightarrow> dflt)"
| "py_get (JArr xs) key dflt = Inl AttributeError"
| "py_get (JStr s) key dflt = Inl AttributeError"
| "py_get JNull key dflt = Inl AttributeError"
| "py_get (JBool b) key dflt = Inl AttributeError"
| "py_get (JNum n) key dflt = Inl AttributeError"

text \<open>The values \<open>for author in x\<close> runs through: the elements of a \<open>list\<close>, the keys of
  a \<open>dict\<close>, the characters of a \<open>str\<close>.\<close>

fun py_iter :: "json \<Rightarrow> exn + json list" where
  "py_iter (JArr xs) = Inr xs"
| "py_iter (JObj kvs) = Inr (map JStr (dict_keys kvs))"
| "py_iter (JStr s) = Inr (map (\<lambda>c. JStr [c]) s)"
| "py_iter JNull = Inl TypeError"
| "py_iter (JBool b) = Inl TypeError"
| "py_iter (JNum n) = Inl TypeError"

text \<open>\<open>x.lower()\<close>: a method of \<open>str\<close> only. What \<open>str.lower\<close> computes (Unicode
  lower-casing) is the parameter \<open>lower\<close>.\<close>

fun py_lower :: "(str \<Rightarrow> str) \<Rightarrow> json \<Rightarrow> exn + str" where
  "py_lower lower (JStr s) = Inr (lower s)"
| "py_lower lower (JArr xs) = Inl AttributeError"
| "py_lower lower (JObj kvs) = Inl AttributeError"
| "py_lower lower JNull = Inl AttributeError"
| "py_lower lower (JBool b) = Inl AttributeError"
| "py_lower lower (JNum n) = Inl AttributeError"

text \<open>The truth value of \<open>if x:\<close>.\<close>

fun truthy :: "json \<Rightarrow> bool" where
  "truthy JNull = False"
| "truthy (JBool b) = b"
| "truthy (JNum n) = (n \<noteq> 0)"
| "truthy (JStr s) = (s \<noteq> [])"
| "truthy (JArr xs) = (xs \<noteq> [])"
| "truthy (JObj kvs) = (kvs \<noteq> [])"

text \<open>Sequencing of computations that may raise: the first exception ends them.\<close>

definition and_then :: "exn + 'a \<Rightarrow> ('a \<Rightarrow> exn + 'b) \<Rightarrow> exn + 'b" where
  "and_then m f = (case m of Inl e \<Rightarrow> Inl e | Inr v \<Rightarrow> f v)"

text \<open>ASCII lower-casing, an instance of \<open>lower\<close> for concrete runs.\<close>

definition ascii_lower :: "str \<Rightarrow> str" where
  "ascii_lower s = map (\<lambda>c. if 65 \<le> c \<and> c \<le> 90 then c + 32 else c) s"

section \<open>The matcher: \<open>difflib.SequenceMatcher(None, a, b).ratio()\<close>\<close>

text \<open>
  \<open>similar(a, b)\<close> is \<open>SequenceMatcher(None, a, b).ratio()\<close> of Python's standard library.
  The definitions of this section follow CPython's \<open>Lib/difflib.py\<close>, with \<open>isjunk = None\<close>
  (so the set \<open>bjunk\<close> is empty) and \<open>autojunk = True\<close>, the defaults the call leaves.

  \<open>__chain_b\<close>: \<open>b2j\<close> maps each element of \<open>b\<close> to the list of its indices, in increasing
  order; when \<open>b\<close> has 200 elements or more, an element with more than \<open>len(b) // 100 + 1\<close>
  occurrences is popular and its entry is deleted.
\<close>

fun chain_b_loop :: "('a \<rightharpoonup> nat list) \<Rightarrow> nat \<Rightarrow> 'a list \<Rightarrow> ('a \<rightharpoonup> nat list)" where
  "chain_b_loop b2j i [] = b2j"
| "chain_b_loop b2j i (elt # rest) =
     chain_b_loop (b2j(elt \<mapsto> (case b2j elt of None \<Rightarrow> [] | Some indices \<Rightarrow> indices) @ [i]))
       (Suc i) rest"

definition chain_b :: "'a list \<Rightarrow> ('a \<rightharpoonup> nat list)" where
  "chain_b b =
     (let b2j = chain_b_loop Map.empty 0 b; n = length b
      in if n \<ge> 200
         then (\<lambda>elt. case b2j elt of
                  None \<Rightarrow> None
                | Some idxs \<Rightarrow> if length idxs > n div 100 + 1 then None else Some idxs)
         else b2j)"

text \<open>
  \<open>find_longest_match\<close>. A match is the triple \<open>(besti, bestj, bestsize)\<close>. The inner loop
  runs over the indices \<open>j\<close> of \<open>a[i]\<close> in \<open>b\<close>: \<open>continue\<close> below \<open>blo\<close>, \<open>break\<close> from \<open>bhi\<close>
  on. \<open>j2len.get(j-1, 0)\<close> at \<open>j = 0\<close> asks for the key \<open>-1\<close>, which no dictionary here
  holds.
\<close>

type_synonym match = "nat \<times> nat \<times> nat"

definition j2lenget :: "(nat \<rightharpoonup> nat) \<Rightarrow> nat \<Rightarrow> nat" where
  "j2lenget j2len j = (if j = 0 then 0 else case j2len (j - 1) of None \<Rightarrow> 0 | Some k \<Rightarrow> k)"

fun inner_loop ::
  "(nat \<rightharpoonup> nat) \<Rightarrow> nat \<Rightarrow> nat \<Rightarrow> nat \<Rightarrow> nat list \<Rightarrow> (nat \<rightharpoonup> nat) \<times> match
     \<Rightarrow> (nat \<rightharpoonup> nat) \<times> match" where
  "inner_loop j2len i blo bhi [] (newj2len, best) = (newj2len, best)"
| "inner_loop j2len i blo bhi (j # js) (newj2len, (besti, bestj, bestsize)) =
     (if j < blo then inner_loop j2len i blo bhi js (newj2len, (besti, bestj, bestsize))
      else if j \<ge> bhi then (newj2len, (besti, bestj, bestsize))
      else let k = j2lenget j2len j + 1
           in inner_loop j2len i blo bhi js
                (newj2len(j \<mapsto> k),
                 if k > bestsize then (i + 1 - k, j + 1 - k, k) else (besti, bestj, bestsize)))"

fun main_loop ::
  "'a list \<Rightarrow> ('a \<rightharpoonup> nat list) \<Rightarrow> nat \<Rightarrow> nat \<Rightarrow> nat list \<Rightarrow> (nat \<rightharpoonup> nat) \<times> match
     \<Rightarrow> (nat \<rightharpoonup> nat) \<times> match" where
  "main_loop a b2j blo bhi [] (j2len, best) = (j2len, best)"
| "main_loop a b2j blo bhi (i # is) (j2len, best) =
     main_loop a b2j blo bhi is
       (inner_loop j2len i blo bhi (case b2j (a ! i) of None \<Rightarrow> [] | Some js \<Rightarrow> js)
          (Map.empty, best))"

text \<open>
  The two loops that extend the best match by elements that are not junk, on each end.
  The two loops after them extend by junk elements; with \<open>bjunk\<close> empty their conditions
  are false at once.
\<close>

function extend_left :: "'a list \<Rightarrow> 'a list \<Rightarrow> nat \<Rightarrow> nat \<Rightarrow> match \<Rightarrow> match" where
  "extend_left a b alo blo (besti, bestj, bestsize) =
     (if besti > alo \<and> bestj > blo \<and> a ! (besti - 1) = b ! (bestj - 1)
      then extend_left a b alo blo (besti - 1, bestj - 1, bestsize + 1)
      else (besti, bestj, bestsize))"
  by pat_completeness auto
termination
  by (relation "measure (\<lambda>(a, b, alo, blo, besti, bestj, bestsize). besti)") auto

function extend_right :: "'a list \<Rightarrow> 'a list \<Rightarrow> nat \<Rightarrow> nat \<Rightarrow> match \<Rightarrow> match" where
  "extend_right a b ahi bhi (besti, bestj, bestsize) =
     (if besti + bestsize < ahi \<and> bestj + bestsize < bhi
         \<and> a ! (besti + bestsize) = b ! (bestj + bestsize)
      then extend_right a b ahi bhi (besti, bestj, bestsize + 1)
      else (besti, bestj, bestsize))"
  by pat_completeness auto
termination
  by (relation "measure (\<lambda>(a, b, ahi, bhi, besti, bestj, bestsize). ahi - (besti + bestsize))") auto

definition find_longest_match ::
  "'a list \<Rightarrow> 'a list \<Rightarrow> ('a \<rightharpoonup> nat list) \<Rightarrow> nat \<Rightarrow> nat \<Rightarrow> nat \<Rightarrow> nat \<Rightarrow> match" where
  "find_longest_match a b b2j alo ahi blo bhi =
     extend_right a b ahi bhi
       (extend_left a b alo blo
          (snd (main_loop a b2j blo bhi [alo..<ahi] (Map.empty, (alo, blo, 0)))))"

text \<open>
  Where the best match lies. Every length in \<open>j2len\<close> is at most the number of rows of
  \<open>a\<close> seen so far, so \<open>i - k + 1\<close> never falls below \<open>alo\<close>, and the block ends by
  \<open>ahi\<close>; the loop of \<open>get_matching_blocks\<close> terminates on that account. With the same
  on the side of \<open>b\<close>, further down, the subtractions on natural numbers in
  \<open>inner_loop\<close> are the integer ones.
\<close>

definition j2len_bounded :: "(nat \<rightharpoonup> nat) \<Rightarrow> nat \<Rightarrow> bool" where
  "j2len_bounded j2len c = (\<forall>j k. j2len j = Some k \<longrightarrow> k \<le> c)"

definition best_within :: "nat \<Rightarrow> nat \<Rightarrow> match \<Rightarrow> bool" where
  "best_within alo hi best = (case best of (besti, bestj, bestsize) \<Rightarrow> alo \<le> besti \<and> besti + bestsize \<le> hi)"

lemma j2lenget_bounded: "j2len_bounded j2len c \<Longrightarrow> j2lenget j2len j \<le> c"
  by (auto simp: j2len_bounded_def j2lenget_def split: option.splits)

lemma inner_loop_bounds:
  assumes "alo \<le> i" "j2len_bounded j2len (i - alo)"
    and "j2len_bounded new (Suc i - alo)" "best_within alo (Suc i) best"
    and "inner_loop j2len i blo bhi js (new, best) = (new', best')"
  shows "j2len_bounded new' (Suc i - alo) \<and> best_within alo (Suc i) best'"
  using assms
proof (induction js arbitrary: new best)
  case Nil
  then show ?case by simp
next
  case (Cons j js)
  obtain besti bestj bestsize where best: "best = (besti, bestj, bestsize)"
    by (cases best) auto
  let ?k = "j2lenget j2len j + 1"
  have k: "?k \<le> Suc i - alo"
    using j2lenget_bounded[OF Cons.prems(2), of j] Cons.prems(1) by simp
  show ?case
  proof (cases "j < blo")
    case True
    with Cons best show ?thesis by simp
  next
    case False
    show ?thesis
    proof (cases "j \<ge> bhi")
      case True
      with Cons.prems False best show ?thesis by simp
    next
      case nb: False
      let ?new = "new(j \<mapsto> ?k)"
      let ?best = "if ?k > bestsize then (i + 1 - ?k, j + 1 - ?k, ?k) else (besti, bestj, bestsize)"
      have 1: "j2len_bounded ?new (Suc i - alo)"
        using Cons.prems(3) k by (auto simp: j2len_bounded_def)
      have 2: "best_within alo (Suc i) ?best"
        using Cons.prems(4) k Cons.prems(1) best by (auto simp: best_within_def)
      have 3: "inner_loop j2len i blo bhi js (?new, ?best) = (new', best')"
        using Cons.prems(5) False nb best by (auto simp add: Let_def split: if_splits)
      show ?thesis
        by (rule Cons.IH[OF Cons.prems(1) Cons.prems(2) 1 2 3])
    qed
  qed
qed

lemma main_loop_bounds:
  assumes "alo \<le> i" "j2len_bounded j2len (i - alo)" "best_within alo i best"
    and "main_loop a b2j blo bhi [i..<ahi] (j2len, best) = (j2len', best')"
  shows "best_within alo (max i ahi) best'"
  using assms
proof (induction "ahi - i" arbitrary: i j2len best)
  case 0
  then show ?case by (simp add: max_def)
next
  case (Suc n)
  then have lt: "i < ahi" by simp
  obtain new best1 where il:
    "inner_loop j2len i blo bhi (case b2j (a ! i) of None \<Rightarrow> [] | Some js \<Rightarrow> js) (Map.empty, best) = (new, best1)"
    by (cases "inner_loop j2len i blo bhi (case b2j (a ! i) of None \<Rightarrow> [] | Some js \<Rightarrow> js) (Map.empty, best)") auto
  have bw: "best_within alo (Suc i) best"
    using Suc.prems(3) by (auto simp: best_within_def)
  have e: "j2len_bounded Map.empty (Suc i - alo)" by (simp add: j2len_bounded_def)
  from inner_loop_bounds[OF Suc.prems(1) Suc.prems(2) e bw il]
  have b1: "j2len_bounded new (Suc i - alo)" "best_within alo (Suc i) best1" by auto
  have ml: "main_loop a b2j blo bhi [Suc i..<ahi] (new, best1) = (j2len', best')"
    using Suc.prems(4) lt il by (simp add: upt_conv_Cons)
  have "best_within alo (max (Suc i) ahi) best'"
    by (rule Suc.hyps(1)[OF _ _ b1(1) b1(2) ml]) (use Suc.hyps(2) Suc.prems(1) in auto)
  then show ?case using lt by (simp add: max_def)
qed

declare extend_left.simps [simp del] extend_right.simps [simp del]

lemma extend_left_bounds:
  "best_within alo hi best \<Longrightarrow> best_within alo hi (extend_left a b alo blo best)"
proof (induction a b alo blo best rule: extend_left.induct)
  case (1 a b alo blo besti bestj bestsize)
  show ?case
  proof (cases "besti > alo \<and> bestj > blo \<and> a ! (besti - 1) = b ! (bestj - 1)")
    case True
    have "best_within alo hi (besti - 1, bestj - 1, bestsize + 1)"
      using True "1.prems" by (auto simp: best_within_def)
    from "1.IH"[OF True this] True show ?thesis by (subst extend_left.simps) simp
  next
    case False
    then show ?thesis using "1.prems" by (subst extend_left.simps) auto
  qed
qed

lemma extend_right_bounds:
  "best_within alo (max alo ahi) best \<Longrightarrow> best_within alo (max alo ahi) (extend_right a b ahi bhi best)"
proof (induction a b ahi bhi best rule: extend_right.induct)
  case (1 a b ahi bhi besti bestj bestsize)
  show ?case
  proof (cases "besti + bestsize < ahi \<and> bestj + bestsize < bhi \<and> a ! (besti + bestsize) = b ! (bestj + bestsize)")
    case True
    have "best_within alo (max alo ahi) (besti, bestj, bestsize + 1)"
      using True "1.prems" by (auto simp: best_within_def)
    from "1.IH"[OF True this] True show ?thesis by (subst extend_right.simps) simp
  next
    case False
    then show ?thesis using "1.prems" by (subst extend_right.simps) auto
  qed
qed

lemma find_longest_match_bounds:
  assumes "find_longest_match a b b2j alo ahi blo bhi = (i, j, k)"
  shows "alo \<le> i \<and> i + k \<le> max alo ahi"
proof -
  obtain m best where ml: "main_loop a b2j blo bhi [alo..<ahi] (Map.empty, (alo, blo, 0)) = (m, best)"
    by (cases "main_loop a b2j blo bhi [alo..<ahi] (Map.empty, (alo, blo, 0))") auto
  have "best_within alo (max alo ahi) best"
    by (rule main_loop_bounds[OF _ _ _ ml]) (auto simp: j2len_bounded_def best_within_def)
  then have "best_within alo (max alo ahi) (extend_right a b ahi bhi (extend_left a b alo blo best))"
    by (intro extend_right_bounds extend_left_bounds)
  then show ?thesis using assms ml by (simp add: find_longest_match_def best_within_def)
qed

text \<open>The same on the side of \<open>b\<close>: \<open>j - k + 1\<close> never falls below \<open>blo\<close>.\<close>

definition j2len_cols :: "(nat \<rightharpoonup> nat) \<Rightarrow> nat \<Rightarrow> nat \<Rightarrow> bool" where
  "j2len_cols j2len blo bhi = (\<forall>j k. j2len j = Some k \<longrightarrow> blo \<le> j \<and> j < bhi \<and> k \<le> Suc j - blo)"

definition best_within_b :: "nat \<Rightarrow> nat \<Rightarrow> match \<Rightarrow> bool" where
  "best_within_b blo hi best = (case best of (besti, bestj, bestsize) \<Rightarrow> blo \<le> bestj \<and> bestj + bestsize \<le> hi)"

lemma j2lenget_cols:
  assumes "j2len_cols j2len blo bhi" "blo \<le> j"
  shows "j2lenget j2len j + 1 \<le> Suc j - blo"
proof (cases "j = 0")
  case True
  with assms(2) show ?thesis by (simp add: j2lenget_def)
next
  case False
  show ?thesis
  proof (cases "j2len (j - 1)")
    case None
    with False assms(2) show ?thesis by (simp add: j2lenget_def)
  next
    case (Some v)
    with assms(1) have "blo \<le> j - 1" "v \<le> Suc (j - 1) - blo"
      unfolding j2len_cols_def by blast+
    with False Some show ?thesis by (simp add: j2lenget_def)
  qed
qed

lemma inner_loop_cols:
  assumes "j2len_cols j2len blo bhi"
    and "j2len_cols new blo bhi" "best_within_b blo (max blo bhi) best"
    and "inner_loop j2len i blo bhi js (new, best) = (new', best')"
  shows "j2len_cols new' blo bhi \<and> best_within_b blo (max blo bhi) best'"
  using assms(2-4)
proof (induction js arbitrary: new best)
  case Nil
  then show ?case by simp
next
  case (Cons j js)
  obtain besti bestj bestsize where best: "best = (besti, bestj, bestsize)"
    by (cases best) auto
  let ?k = "j2lenget j2len j + 1"
  show ?case
  proof (cases "j < blo")
    case True
    with Cons best show ?thesis by simp
  next
    case False
    show ?thesis
    proof (cases "j \<ge> bhi")
      case True
      with Cons.prems False best show ?thesis by simp
    next
      case nb: False
      have k: "?k \<le> Suc j - blo"
        using j2lenget_cols[OF assms(1), of j] False by simp
      let ?new = "new(j \<mapsto> ?k)"
      let ?best = "if ?k > bestsize then (i + 1 - ?k, j + 1 - ?k, ?k) else (besti, bestj, bestsize)"
      have 1: "j2len_cols ?new blo bhi"
        using Cons.prems(1) k False nb by (auto simp: j2len_cols_def)
      have 2: "best_within_b blo (max blo bhi) ?best"
        using Cons.prems(2) k False nb best by (auto simp: best_within_b_def)
      have 3: "inner_loop j2len i blo bhi js (?new, ?best) = (new', best')"
        using Cons.prems(3) False nb best by (auto simp add: Let_def split: if_splits)
      show ?thesis
        by (rule Cons.IH[OF 1 2 3])
    qed
  qed
qed

lemma main_loop_cols:
  assumes "j2len_cols j2len blo bhi" "best_within_b blo (max blo bhi) best"
    and "main_loop a b2j blo bhi rows (j2len, best) = (j2len', best')"
  shows "best_within_b blo (max blo bhi) best'"
  using assms
proof (induction rows arbitrary: j2len best)
  case Nil
  then show ?case by simp
next
  case (Cons i rows)
  obtain new best1 where il:
    "inner_loop j2len i blo bhi (case b2j (a ! i) of None \<Rightarrow> [] | Some js \<Rightarrow> js) (Map.empty, best) = (new, best1)"
    by (cases "inner_loop j2len i blo bhi (case b2j (a ! i) of None \<Rightarrow> [] | Some js \<Rightarrow> js) (Map.empty, best)") auto
  have e: "j2len_cols Map.empty blo bhi" by (simp add: j2len_cols_def)
  from inner_loop_cols[OF Cons.prems(1) e Cons.prems(2) il]
  have b1: "j2len_cols new blo bhi" "best_within_b blo (max blo bhi) best1" by auto
  have ml: "main_loop a b2j blo bhi rows (new, best1) = (j2len', best')"
    using Cons.prems(3) il by simp
  show ?case
    by (rule Cons.IH[OF b1 ml])
qed

lemma extend_left_cols:
  "best_within_b blo hi best \<Longrightarrow> best_within_b blo hi (extend_left a b alo blo best)"
proof (induction a b alo blo best rule: extend_left.induct)
  case (1 a b alo blo besti bestj bestsize)
  show ?case
  proof (cases "besti > alo \<and> bestj > blo \<and> a ! (besti - 1) = b ! (bestj - 1)")
    case True
    have "best_within_b blo hi (besti - 1, bestj - 1, bestsize + 1)"
      using True "1.prems" by (auto simp: best_within_b_def)
    from "1.IH"[OF True this] True show ?thesis by (subst extend_left.simps) simp
  next
    case False
    then show ?thesis using "1.prems" by (subst extend_left.simps) auto
  qed
qed

lemma extend_right_cols:
  "best_within_b blo (max blo bhi) best \<Longrightarrow> best_within_b blo (max blo bhi) (extend_right a b ahi bhi best)"
proof (induction a b ahi bhi best rule: extend_right.induct)
  case (1 a b ahi bhi besti bestj bestsize)
  show ?case
  proof (cases "besti + bestsize < ahi \<and> bestj + bestsize < bhi \<and> a ! (besti + bestsize) = b ! (bestj + bestsize)")
    case True
    have "best_within_b blo (max blo bhi) (besti, bestj, bestsize + 1)"
      using True "1.prems" by (auto simp: best_within_b_def)
    from "1.IH"[OF True this] True show ?thesis by (subst extend_right.simps) simp
  next
    case False
    then show ?thesis using "1.prems" by (subst extend_right.simps) auto
  qed
qed

lemma find_longest_match_bounds_b:
  assumes "find_longest_match a b b2j alo ahi blo bhi = (i, j, k)"
  shows "blo \<le> j \<and> j + k \<le> max blo bhi"
proof -
  obtain m best where ml: "main_loop a b2j blo bhi [alo..<ahi] (Map.empty, (alo, blo, 0)) = (m, best)"
    by (cases "main_loop a b2j blo bhi [alo..<ahi] (Map.empty, (alo, blo, 0))") auto
  have "best_within_b blo (max blo bhi) best"
    by (rule main_loop_cols[OF _ _ ml]) (auto simp: j2len_cols_def best_within_b_def)
  then have "best_within_b blo (max blo bhi) (extend_right a b ahi bhi (extend_left a b alo blo best))"
    by (intro extend_right_cols extend_left_cols)
  then show ?thesis using assms ml by (simp add: find_longest_match_def best_within_b_def)
qed

text \<open>
  \<open>get_matching_blocks\<close>. The queue is used as a stack: \<open>queue.pop()\<close> takes the region
  appended last, here the head of the list.
\<close>

function matching_blocks_loop ::
  "'a list \<Rightarrow> 'a list \<Rightarrow> ('a \<rightharpoonup> nat list) \<Rightarrow> (nat \<times> nat \<times> nat \<times> nat) list \<Rightarrow> match list
     \<Rightarrow> match list" where
  "matching_blocks_loop a b b2j [] matching_blocks = matching_blocks"
| "matching_blocks_loop a b b2j ((alo, ahi, blo, bhi) # queue) matching_blocks =
     (case find_longest_match a b b2j alo ahi blo bhi of
        (i, j, k) \<Rightarrow>
          if k \<noteq> 0
          then matching_blocks_loop a b b2j
                 ((if i + k < ahi \<and> j + k < bhi then [(i + k, ahi, j + k, bhi)] else [])
                  @ (if alo < i \<and> blo < j then [(alo, i, blo, j)] else []) @ queue)
                 (matching_blocks @ [(i, j, k)])
          else matching_blocks_loop a b b2j queue matching_blocks)"
  by pat_completeness auto
termination
proof (relation "measure (\<lambda>(a, b, b2j, queue, mbs). sum_list (map (\<lambda>(alo, ahi, blo, bhi). 2 * (ahi - alo) + 1) queue))", goal_cases)
  case 1
  then show ?case by simp
next
  case (2 a b b2j alo ahi blo bhi queue mbs x1 x2 y1 y2)
  then show ?case using find_longest_match_bounds[of a b b2j alo ahi blo bhi x1 y1 y2]
    by (auto simp: max_def split: if_splits)
next
  case (3 a b b2j alo ahi blo bhi queue mbs x1 x2 y1 y2)
  then show ?case by simp
qed

text \<open>The pass that collapses adjacent blocks, from the dummy block \<open>(0, 0, 0)\<close>.\<close>

fun collapse_adjacent :: "match \<Rightarrow> match list \<Rightarrow> match list \<Rightarrow> match list" where
  "collapse_adjacent (i1, j1, k1) [] non_adjacent =
     (if k1 \<noteq> 0 then non_adjacent @ [(i1, j1, k1)] else non_adjacent)"
| "collapse_adjacent (i1, j1, k1) ((i2, j2, k2) # rest) non_adjacent =
     (if i1 + k1 = i2 \<and> j1 + k1 = j2
      then collapse_adjacent (i1, j1, k1 + k2) rest non_adjacent
      else collapse_adjacent (i2, j2, k2) rest
             (if k1 \<noteq> 0 then non_adjacent @ [(i1, j1, k1)] else non_adjacent))"

definition get_matching_blocks :: "'a list \<Rightarrow> 'a list \<Rightarrow> match list" where
  "get_matching_blocks a b =
     (let la = length a; lb = length b;
          matching_blocks = matching_blocks_loop a b (chain_b b) [(0, la, 0, lb)] []
      in collapse_adjacent (0, 0, 0) (sort matching_blocks) [] @ [(la, lb, 0)])"

text \<open>
  \<open>_calculate_ratio\<close> and \<open>ratio\<close>. The source computes the float \<open>2.0 * matches / length\<close>;
  the model keeps the exact quotient. The tests the program makes on it agree: \<open>2.0 *
  matches\<close> is exact, the division rounds to nearest, and a quotient above \<open>4/5\<close> is above it
  by \<open>1 / (5 * length)\<close> at least, far more than the spacing of floats near \<open>0.8\<close> for any
  string that fits in memory; so the float exceeds the float \<open>0.8\<close> exactly when the
  quotient exceeds \<open>4/5\<close>, and it is \<open>1.0\<close> or \<open>0.0\<close> exactly when the quotient is.
\<close>

definition calculate_ratio :: "nat \<Rightarrow> nat \<Rightarrow> rat" where
  "calculate_ratio matches len = (if len \<noteq> 0 then 2 * of_nat matches / of_nat len else 1)"

definition ratio :: "'a list \<Rightarrow> 'a list \<Rightarrow> rat" where
  "ratio a b =
     calculate_ratio (sum_list (map (\<lambda>(i, j, k). k) (get_matching_blocks a b)))
       (length a + length b)"

section \<open>\<open>similar\<close> and \<open>search_doi\<close>\<close>

definition similar :: "'a list \<Rightarrow> 'a list \<Rightarrow> rat" where
  "similar a b = ratio a b"

text \<open>
  Lines 25 to 27 of \<open>search_doi\<close>: the guard on \<open>data\<close>, the top item and the list
  comprehension \<open>crossref_authors\<close>. \<open>and\<close> evaluates its right operand only when the left
  one is true. \<open>None\<close> is the guard failing.
\<close>

fun family_names :: "json list \<Rightarrow> exn + json list" where
  "family_names [] = Inr []"
| "family_names (author # rest) =
     and_then (py_in (lit ''family'') author) (\<lambda>has_family.
       if has_family
       then and_then (py_getitem author (lit ''family'')) (\<lambda>family.
              and_then (family_names rest) (\<lambda>families. Inr (family # families)))
       else family_names rest)"

definition top_result :: "json \<Rightarrow> exn + (json \<times> json list) option" where
  "top_result data =
     and_then (py_in (lit ''message'') data) (\<lambda>has_message.
       if \<not> has_message then Inr None
       else and_then (py_getitem data (lit ''message'')) (\<lambda>message.
         and_then (py_in (lit ''items'') message) (\<lambda>has_items.
           if \<not> has_items then Inr None
           else and_then (py_getitem message (lit ''items'')) (\<lambda>items.
             and_then (py_len items) (\<lambda>n.
               if \<not> n > 0 then Inr None
               else and_then (py_getitem0 items) (\<lambda>item.
                 and_then (py_get item (lit ''author'') (JArr [])) (\<lambda>authors.
                   and_then (py_iter authors) (\<lambda>author_list.
                     and_then (family_names author_list) (\<lambda>crossref_authors.
                       Inr (Some (item, crossref_authors)))))))))))"

text \<open>
  Lines 30 to 32: the loop over \<open>crossref_authors\<close>. \<open>Some v\<close> is \<open>return v\<close>; \<open>None\<close> is the
  loop running to its end. The requested \<open>author\<close> is a \<open>str\<close>.
\<close>

fun match_loop :: "(str \<Rightarrow> str) \<Rightarrow> json \<Rightarrow> str \<Rightarrow> json list \<Rightarrow> exn + json option" where
  "match_loop lower item author [] = Inr None"
| "match_loop lower item author (crossref_author # rest) =
     and_then (py_lower lower crossref_author) (\<lambda>candidate.
       if similar candidate (lower author) > 4 / 5
       then and_then (py_get item (lit ''DOI'') JNull) (\<lambda>doi. Inr (Some doi))
       else match_loop lower item author rest)"

text \<open>
  The body of the \<open>try\<close>. \<open>response\<close> is what lines 21 to 23 (\<open>requests.get\<close>,
  \<open>raise_for_status\<close>, \<open>response.json()\<close>) come to: the exception one of them raises, or
  the decoded body.
\<close>

definition search_doi_try :: "(str \<Rightarrow> str) \<Rightarrow> exn + json \<Rightarrow> str \<Rightarrow> exn + json option" where
  "search_doi_try lower response author =
     and_then response (\<lambda>data.
       and_then (top_result data) (\<lambda>top.
         case top of
           None \<Rightarrow> Inr None
         | Some (item, crossref_authors) \<Rightarrow> match_loop lower item author crossref_authors))"

text \<open>
  \<open>search_doi\<close>. The registry is the parameter \<open>reg\<close>: \<open>reg n title\<close> is the outcome of the
  query for \<open>title\<close> when \<open>n\<close> queries went before it. \<open>title\<close> is the field value the
  caller hands in (a \<open>str\<close> for a field read from a file); the function only passes it
  on. \<open>queried\<close> lists the titles queried so far; each \<open>requests.get\<close> adds one.
  \<open>except requests.RequestException\<close> catches that class only; every path that does not
  return inside the \<open>try\<close> ends at \<open>return None\<close>, which is \<open>JNull\<close>. The \<open>print\<close> calls
  are left out.
\<close>

definition search_doi ::
  "(str \<Rightarrow> str) \<Rightarrow> (nat \<Rightarrow> json \<Rightarrow> exn + json) \<Rightarrow> json \<Rightarrow> str \<Rightarrow> json list
     \<Rightarrow> json list \<times> (exn + json)" where
  "search_doi lower reg title author queried =
     (queried @ [title],
      case search_doi_try lower (reg (length queried) title) author of
        Inl RequestException \<Rightarrow> Inr JNull
      | Inl e \<Rightarrow> Inl e
      | Inr (Some doi) \<Rightarrow> Inr doi
      | Inr None \<Rightarrow> Inr JNull)"

section \<open>\<open>process_bib_file\<close>\<close>

text \<open>
  A pybtex \<open>Person\<close> (of its name parts the program reads \<open>last_names\<close> only) and an
  \<open>Entry\<close>: its \<open>fields\<close> from field name to value and its \<open>persons\<close> from role to persons, both
  dictionaries that ignore the case of their keys, here keyed by the lower-case name.
  A field read from the file is a \<open>str\<close>; the \<open>doi\<close> written is whatever the registry
  item held.
\<close>

record person =
  last_names :: "str list"

record entry =
  entry_fields :: "str \<rightharpoonup> json"
  entry_persons :: "str \<rightharpoonup> person list"

text \<open>The state of a run: the titles queried, the assignments \<open>entry.fields["doi"] = doi\<close>
  made (entry key and value) and \<open>updated_count\<close>.\<close>

record run =
  calls :: "json list"
  doi_writes :: "(str \<times> json) list"
  updated_count :: nat

definition init_run :: run where
  "init_run = \<lparr>calls = [], doi_writes = [], updated_count = 0\<rparr>"

text \<open>The body of the loop, lines 46 to 62, for one entry: the state after it, and the
  entry as it stands then or the exception that left the loop.\<close>

definition process_entry ::
  "(str \<Rightarrow> str) \<Rightarrow> (nat \<Rightarrow> json \<Rightarrow> exn + json) \<Rightarrow> str \<Rightarrow> entry \<Rightarrow> run \<Rightarrow> run \<times> (exn + entry)" where
  "process_entry lower reg entry_key entry st =
     (if entry_fields entry (lit ''doi'') = None
      then
        let title = (case entry_fields entry (lit ''title'') of Some t \<Rightarrow> t | None \<Rightarrow> JStr []);
            authors = (case entry_persons entry (lit ''author'') of Some ps \<Rightarrow> ps | None \<Rightarrow> [])
        in if truthy title \<and> authors \<noteq> []
           then (case last_names (hd authors) of
                   [] \<Rightarrow> (st, Inl IndexError)
                 | first_author # others \<Rightarrow>
                     (case search_doi lower reg title first_author (calls st) of
                        (calls', Inl e) \<Rightarrow> (st\<lparr>calls := calls'\<rparr>, Inl e)
                      | (calls', Inr doi) \<Rightarrow>
                          if truthy doi
                          then (st\<lparr>calls := calls',
                                    doi_writes := doi_writes st @ [(entry_key, doi)],
                                    updated_count := updated_count st + 1\<rparr>,
                                Inr (entry\<lparr>entry_fields := (entry_fields entry)(lit ''doi'' \<mapsto> doi)\<rparr>))
                          else (st\<lparr>calls := calls'\<rparr>, Inr entry)))
           else (st, Inr entry)
      else (st, Inr entry))"

text \<open>The loop over \<open>bib_data.entries.items()\<close>: an exception ends it.\<close>

fun process_entries ::
  "(str \<Rightarrow> str) \<Rightarrow> (nat \<Rightarrow> json \<Rightarrow> exn + json) \<Rightarrow> run \<Rightarrow> (str \<times> entry) list
     \<Rightarrow> run \<times> (exn + (str \<times> entry) list)" where
  "process_entries lower reg st [] = (st, Inr [])"
| "process_entries lower reg st ((entry_key, entry) # rest) =
     (case process_entry lower reg entry_key entry st of
        (st', Inl e) \<Rightarrow> (st', Inl e)
      | (st', Inr entry') \<Rightarrow>
          (case process_entries lower reg st' rest of
             (st'', Inl e) \<Rightarrow> (st'', Inl e)
           | (st'', Inr rest') \<Rightarrow> (st'', Inr ((entry_key, entry') # rest'))))"

text \<open>
  \<open>process_bib_file\<close>. \<open>parsed\<close> is what \<open>parse_file(input_file)\<close> comes to: the exception
  it raises, or the entries in file order. \<open>to_file\<close> is what opening the output file and
  \<open>bib_data.to_file\<close> come to on the final entries: the exception raised, or \<open>None\<close> when
  the file is written. The result \<open>Inr entries\<close> is a run that returns, with \<open>entries\<close> in
  the output file; \<open>Inl e\<close> is a run that \<open>e\<close> ends.
\<close>

definition process_bib_file ::
  "(str \<Rightarrow> str) \<Rightarrow> (nat \<Rightarrow> json \<Rightarrow> exn + json) \<Rightarrow> exn + (str \<times> entry) list
     \<Rightarrow> ((str \<times> entry) list \<Rightarrow> exn option) \<Rightarrow> run \<times> (exn + (str \<times> entry) list)" where
  "process_bib_file lower reg parsed to_file =
     (case parsed of
        Inl e \<Rightarrow> (init_run, Inl e)
      | Inr entries \<Rightarrow>
          (case process_entries lower reg init_run entries of
             (st, Inl e) \<Rightarrow> (st, Inl e)
           | (st, Inr entries') \<Rightarrow>
               (case to_file entries' of
                  Some e \<Rightarrow> (st, Inl e)
                | None \<Rightarrow> (st, Inr entries'))))"

section \<open>Facts about the matcher\<close>

text \<open>
  For \<open>similar(s, s)\<close>: \<open>run_len b2j s i\<close> is the number of consecutive elements of \<open>s\<close>
  ending at index \<open>i\<close> that have an entry in \<open>b2j\<close> (that are not popular). With \<open>a = b\<close>
  every length the main loop of \<open>find_longest_match\<close> records at \<open>(i, j)\<close> is at most the
  run ending at \<open>i\<close> and the run ending at \<open>j\<close>, and on the diagonal it is that run; so
  the best block is only ever replaced by a block on the diagonal.
\<close>

fun run_len :: "('a \<rightharpoonup> nat list) \<Rightarrow> 'a list \<Rightarrow> nat \<Rightarrow> nat" where
  "run_len b2j s 0 = (if b2j (s ! 0) = None then 0 else 1)"
| "run_len b2j s (Suc i) = (if b2j (s ! Suc i) = None then 0 else run_len b2j s i + 1)"

definition prev_ok :: "('a \<rightharpoonup> nat list) \<Rightarrow> 'a list \<Rightarrow> nat \<Rightarrow> (nat \<rightharpoonup> nat) \<Rightarrow> bool" where
  "prev_ok b2j s i j2len =
     ((\<forall>j k. j2len j = Some k \<longrightarrow> i > 0 \<and> k \<le> run_len b2j s (i - 1) \<and> k \<le> run_len b2j s j)
      \<and> (i > 0 \<longrightarrow> j2len (i - 1) =
            (if run_len b2j s (i - 1) = 0 then None else Some (run_len b2j s (i - 1)))))"

definition diag_best :: "('a \<rightharpoonup> nat list) \<Rightarrow> 'a list \<Rightarrow> nat \<Rightarrow> match \<Rightarrow> bool" where
  "diag_best b2j s i best =
     (case best of (besti, bestj, bestsize) \<Rightarrow>
        besti = bestj \<and> (\<forall>i'<i. run_len b2j s i' \<le> bestsize))"

definition inner_inv ::
  "('a \<rightharpoonup> nat list) \<Rightarrow> 'a list \<Rightarrow> nat \<Rightarrow> nat list \<Rightarrow> (nat \<rightharpoonup> nat) \<times> match \<Rightarrow> bool" where
  "inner_inv b2j s i js st =
     (case st of (new, best) \<Rightarrow>
        diag_best b2j s i best
        \<and> (i \<in> set js \<or> run_len b2j s i \<le> snd (snd best))
        \<and> (\<forall>j k. new j = Some k \<longrightarrow> k \<le> run_len b2j s i \<and> k \<le> run_len b2j s j)
        \<and> (i \<in> set js \<or> new i = Some (run_len b2j s i)))"

lemma chain_b_loop_lookup:
  "chain_b_loop m i0 xs x =
     (if x \<in> set xs
      then Some ((case m x of None \<Rightarrow> [] | Some l \<Rightarrow> l) @ [j \<leftarrow> [i0..<i0 + length xs]. xs ! (j - i0) = x])
      else m x)"
proof (induction xs arbitrary: m i0)
  case Nil
  show ?case by simp
next
  case (Cons e rest)
  have shift: "[j \<leftarrow> [Suc i0..<Suc (i0 + length rest)]. (y # rest) ! (j - i0) = x]
             = [j \<leftarrow> [Suc i0..<Suc (i0 + length rest)]. rest ! (j - Suc i0) = x]" for y
  proof (rule filter_cong[OF refl])
    fix j assume "j \<in> set [Suc i0..<Suc (i0 + length rest)]"
    then have "j - i0 = Suc (j - Suc i0)" by auto
    then show "((y # rest) ! (j - i0) = x) = (rest ! (j - Suc i0) = x)" by simp
  qed
  have absent: "[j \<leftarrow> [Suc i0..<Suc (i0 + length rest)]. rest ! (j - Suc i0) = x] = []"
    if "x \<notin> set rest"
  proof -
    have "rest ! (j - Suc i0) \<noteq> x" if "j \<in> set [Suc i0..<Suc (i0 + length rest)]" for j
    proof -
      from that have "j - Suc i0 < length rest" by auto
      then have "rest ! (j - Suc i0) \<in> set rest" by (rule nth_mem)
      with \<open>x \<notin> set rest\<close> show ?thesis by blast
    qed
    then show ?thesis by (simp add: filter_empty_conv del: upt_Suc)
  qed
  have upt: "[i0..<i0 + length (e # rest)] = i0 # [Suc i0..<Suc (i0 + length rest)]"
    using upt_conv_Cons[of i0 "Suc (i0 + length rest)"] by (simp del: upt_Suc)
  show ?case
    by (simp only: chain_b_loop.simps Cons.IH upt filter.simps)
       (auto simp: shift absent simp del: upt_Suc)
qed

lemma chain_b_absent: "x \<notin> set b \<Longrightarrow> chain_b b x = None"
  by (simp add: chain_b_def Let_def chain_b_loop_lookup)

lemma chain_b_Some:
  "chain_b b x = Some js \<Longrightarrow> x \<in> set b \<and> js = [j \<leftarrow> [0..<length b]. b ! j = x]"
  by (auto simp: chain_b_def Let_def chain_b_loop_lookup split: if_splits option.splits)

lemma main_loop_no_keys:
  "\<forall>i\<in>set rows. b2j (a ! i) = None \<Longrightarrow> snd (main_loop a b2j blo bhi rows (j2len, best)) = best"
  by (induction rows arbitrary: j2len) simp_all

lemma sum_collapse_adjacent:
  "sum_list (map (\<lambda>(i, j, k). k) (collapse_adjacent (i1, j1, k1) blocks non_adjacent))
     = k1 + sum_list (map (\<lambda>(i, j, k). k) blocks) + sum_list (map (\<lambda>(i, j, k). k) non_adjacent)"
  by (induction "(i1, j1, k1)" blocks non_adjacent arbitrary: i1 j1 k1 rule: collapse_adjacent.induct)
     auto

lemma find_longest_match_disjoint:
  assumes "set a \<inter> set b = {}"
  shows "find_longest_match a b (chain_b b) 0 (length a) 0 (length b) = (0, 0, 0)"
proof -
  have "\<forall>i\<in>set [0..<length a]. chain_b b (a ! i) = None"
  proof
    fix i assume "i \<in> set [0..<length a]"
    then have "a ! i \<in> set a" by simp
    with assms have "a ! i \<notin> set b" by blast
    then show "chain_b b (a ! i) = None" by (rule chain_b_absent)
  qed
  then have ml: "snd (main_loop a (chain_b b) 0 (length b) [0..<length a] (Map.empty, (0, 0, 0))) = (0, 0, 0)"
    by (rule main_loop_no_keys)
  have el: "extend_left a b 0 0 (0, 0, 0) = (0, 0, 0)"
    by (subst extend_left.simps) simp
  have "0 < length a \<Longrightarrow> 0 < length b \<Longrightarrow> a ! 0 \<noteq> b ! 0"
    using assms by (metis disjoint_iff nth_mem)
  then have er: "extend_right a b (length a) (length b) (0, 0, 0) = (0, 0, 0)"
    by (subst extend_right.simps) auto
  show ?thesis
    by (simp add: find_longest_match_def ml el er)
qed

lemma inner_invI:
  assumes "diag_best b2j s i best"
    and "i \<in> set js \<or> run_len b2j s i \<le> snd (snd best)"
    and "\<forall>j k. new j = Some k \<longrightarrow> k \<le> run_len b2j s i \<and> k \<le> run_len b2j s j"
    and "i \<in> set js \<or> new i = Some (run_len b2j s i)"
  shows "inner_inv b2j s i js (new, best)"
  using assms by (simp add: inner_inv_def)

lemma run_len_pos:
  "b2j (s ! i) \<noteq> None \<Longrightarrow> run_len b2j s i = (if i = 0 then 1 else run_len b2j s (i - 1) + 1)"
  by (cases i) auto

lemma run_len_zero: "b2j (s ! i) = None \<Longrightarrow> run_len b2j s i = 0"
  by (cases i) auto

lemma k_bound:
  assumes "prev_ok b2j s i j2len" "b2j (s ! i) \<noteq> None" "b2j (s ! j) \<noteq> None"
  shows "j2lenget j2len j + 1 \<le> run_len b2j s i
       \<and> j2lenget j2len j + 1 \<le> run_len b2j s j
       \<and> (j = i \<longrightarrow> j2lenget j2len j + 1 = run_len b2j s i)"
proof (cases "j = 0")
  case True
  then show ?thesis
    using assms(2,3) by (auto simp: j2lenget_def run_len_pos)
next
  case False
  show ?thesis
  proof (cases "j2len (j - 1)")
    case None
    have "j = i \<Longrightarrow> run_len b2j s (i - 1) = 0"
      using assms(1) None False unfolding prev_ok_def by (auto split: if_splits)
    then show ?thesis
      using None False assms(2,3) by (auto simp: j2lenget_def run_len_pos)
  next
    case (Some v)
    then have v: "i > 0" "v \<le> run_len b2j s (i - 1)" "v \<le> run_len b2j s (j - 1)"
      using assms(1) unfolding prev_ok_def by blast+
    have "j = i \<Longrightarrow> v = run_len b2j s (i - 1)"
      using assms(1) Some v(1) unfolding prev_ok_def by (auto split: if_splits)
    then show ?thesis
      using Some False v assms(2,3) by (auto simp: j2lenget_def run_len_pos)
  qed
qed

lemma inner_diag:
  assumes "prev_ok b2j s i j2len" "b2j (s ! i) \<noteq> None"
    and "sorted js" "\<forall>j\<in>set js. j < n \<and> b2j (s ! j) \<noteq> None"
    and "inner_inv b2j s i js (new, best)"
    and "inner_loop j2len i 0 n js (new, best) = (new', best')"
  shows "inner_inv b2j s i [] (new', best')"
  using assms(3-6)
proof (induction js arbitrary: new best)
  case Nil
  then show ?case by simp
next
  case (Cons j js)
  obtain besti bestj bestsize where best: "best = (besti, bestj, bestsize)"
    by (cases best) auto
  let ?k = "j2lenget j2len j + 1"
  let ?new = "new(j \<mapsto> ?k)"
  let ?best = "if ?k > bestsize then (i + 1 - ?k, j + 1 - ?k, ?k) else (besti, bestj, bestsize)"
  have jn: "j < n" and jb: "b2j (s ! j) \<noteq> None"
    using Cons.prems(2) by auto
  note kb = k_bound[OF assms(1,2) jb]
  have inv: "besti = bestj" "\<forall>i'<i. run_len b2j s i' \<le> bestsize"
            "i \<in> set (j # js) \<or> run_len b2j s i \<le> bestsize"
            "\<forall>j k. new j = Some k \<longrightarrow> k \<le> run_len b2j s i \<and> k \<le> run_len b2j s j"
            "i \<in> set (j # js) \<or> new i = Some (run_len b2j s i)"
    using Cons.prems(3) by (auto simp: inner_inv_def diag_best_def best)
  have step: "inner_loop j2len i 0 n js (?new, ?best) = (new', best')"
    using Cons.prems(4) jn by (auto simp: best Let_def split: if_splits)

  have upd: "j = i" if "?k > bestsize"
  proof (rule ccontr)
    assume ne: "j \<noteq> i"
    show False
    proof (cases "j < i")
      case True
      then have "run_len b2j s j \<le> bestsize" using inv(2) by blast
      with kb that show False by linarith
    next
      case False
      with ne have "i < j" by simp
      then have "i \<notin> set (j # js)"
        using Cons.prems(1) by auto
      then have "run_len b2j s i \<le> bestsize" using inv(3) by blast
      with kb that show False by linarith
    qed
  qed
  have b: "\<forall>j' k'. ?new j' = Some k' \<longrightarrow> k' \<le> run_len b2j s i \<and> k' \<le> run_len b2j s j'"
    using inv(4) kb by auto
  have c: "i \<in> set js \<or> ?new i = Some (run_len b2j s i)"
    using inv(5) kb by (cases "j = i") auto
  have inv': "inner_inv b2j s i js (?new, ?best)"
  proof (cases "?k > bestsize")
    case True
    then have ji: "j = i" by (rule upd)
    with kb have k: "?k = run_len b2j s i" by blast
    have best': "?best = (i + 1 - ?k, i + 1 - ?k, ?k)"
      using True ji by simp
    have "\<forall>i'<i. run_len b2j s i' \<le> ?k"
      using inv(2) True by (meson le_trans less_imp_le_nat)
    then have d: "diag_best b2j s i (i + 1 - ?k, i + 1 - ?k, ?k)"
      by (simp add: diag_best_def)
    have a: "i \<in> set js \<or> run_len b2j s i \<le> snd (snd (i + 1 - ?k, i + 1 - ?k, ?k))"
      using k by simp
    show ?thesis
      unfolding best' by (rule inner_invI[OF d a b c])
  next
    case False
    then have best': "?best = (besti, bestj, bestsize)" by simp
    have d: "diag_best b2j s i (besti, bestj, bestsize)"
      using inv(1,2) by (simp add: diag_best_def)
    have a: "i \<in> set js \<or> run_len b2j s i \<le> snd (snd (besti, bestj, bestsize))"
      using inv(3) kb False by (cases "j = i") auto
    show ?thesis
      unfolding best' by (rule inner_invI[OF d a b c])
  qed
  have s: "sorted js" using Cons.prems(1) by simp
  have m: "\<forall>j\<in>set js. j < n \<and> b2j (s ! j) \<noteq> None" using Cons.prems(2) by simp
  show ?case
    by (rule Cons.IH[OF s m inv' step])
qed

lemma main_diag:
  assumes keys: "\<forall>i<n. \<forall>js. b2j (s ! i) = Some js \<longrightarrow>
                   sorted js \<and> i \<in> set js \<and> (\<forall>j\<in>set js. j < n \<and> b2j (s ! j) \<noteq> None)"
    and "i \<le> n" "prev_ok b2j s i j2len" "diag_best b2j s i best"
    and "main_loop s b2j 0 n [i..<n] (j2len, best) = (j2len', best')"
  shows "diag_best b2j s n best'"
  using assms(2-5)
proof (induction "n - i" arbitrary: i j2len best)
  case 0
  then show ?case by simp
next
  case (Suc d)
  then have lt: "i < n" by simp
  let ?js = "case b2j (s ! i) of None \<Rightarrow> [] | Some js \<Rightarrow> js"
  obtain new best1 where il: "inner_loop j2len i 0 n ?js (Map.empty, best) = (new, best1)"
    by (cases "inner_loop j2len i 0 n ?js (Map.empty, best)") auto
  have ml: "main_loop s b2j 0 n [Suc i..<n] (new, best1) = (j2len', best')"
    using Suc.prems(4) lt il by (simp add: upt_conv_Cons)
  have next_inv: "prev_ok b2j s (Suc i) new \<and> diag_best b2j s (Suc i) best1"
  proof (cases "b2j (s ! i)")
    case None
    then have eq: "new = Map.empty" "best1 = best"
      using il by simp_all
    have z: "run_len b2j s i = 0"
      using None by (rule run_len_zero)
    have "prev_ok b2j s (Suc i) Map.empty"
      using z by (simp add: prev_ok_def)
    moreover have "diag_best b2j s (Suc i) best"
      using Suc.prems(3) z by (auto simp: diag_best_def less_Suc_eq)
    ultimately show ?thesis using eq by simp
  next
    case (Some js)
    then have ne: "b2j (s ! i) \<noteq> None" by simp
    from keys lt Some have k: "sorted js" "i \<in> set js" "\<forall>j\<in>set js. j < n \<and> b2j (s ! j) \<noteq> None"
      by blast+
    have start: "inner_inv b2j s i js (Map.empty, best)"
      by (rule inner_invI) (use Suc.prems(3) k(2) in simp_all)
    have il': "inner_loop j2len i 0 n js (Map.empty, best) = (new, best1)"
      using il Some by simp
    from inner_diag[OF Suc.prems(2) ne k(1) k(3) start il']
    have fin: "diag_best b2j s i best1" "run_len b2j s i \<le> snd (snd best1)"
      "\<forall>j k. new j = Some k \<longrightarrow> k \<le> run_len b2j s i \<and> k \<le> run_len b2j s j"
      "new i = Some (run_len b2j s i)"
      by (simp_all add: inner_inv_def)
    have pos: "run_len b2j s i \<noteq> 0"
      using run_len_pos[of b2j s i, OF ne] by (simp split: if_splits)
    have "prev_ok b2j s (Suc i) new"
      using fin(3,4) pos by (simp add: prev_ok_def)
    moreover have "diag_best b2j s (Suc i) best1"
      using fin(1,2) by (cases best1) (auto simp: diag_best_def less_Suc_eq)
    ultimately show ?thesis by simp
  qed
  show ?case
    by (rule Suc.hyps(1)[OF _ _ _ _ ml]) (use Suc.hyps(2) lt next_inv in auto)
qed

lemma chain_b_keys:
  assumes "i < length s" "chain_b s (s ! i) = Some js"
  shows "sorted js \<and> i \<in> set js \<and> (\<forall>j\<in>set js. j < length s \<and> chain_b s (s ! j) \<noteq> None)"
proof -
  from chain_b_Some[OF assms(2)] have js: "js = [j \<leftarrow> [0..<length s]. s ! j = s ! i]"
    by simp
  have "sorted js"
    unfolding js by (rule sorted_wrt_filter) simp
  moreover have "i \<in> set js"
    using assms(1) by (simp add: js)
  moreover have "\<forall>j\<in>set js. j < length s \<and> chain_b s (s ! j) \<noteq> None"
    using assms(2) by (auto simp: js)
  ultimately show ?thesis by blast
qed

lemma extend_left_same:
  "extend_left s s 0 0 (p, p, bestsize) = (0, 0, bestsize + p)"
proof (induction p arbitrary: bestsize)
  case 0
  show ?case by (subst extend_left.simps) simp
next
  case (Suc p)
  show ?case by (subst extend_left.simps) (simp add: Suc.IH)
qed

lemma extend_right_same:
  "m \<le> n \<Longrightarrow> extend_right s s n n (0, 0, m) = (0, 0, n)"
proof (induction "n - m" arbitrary: m)
  case 0
  then show ?case by (subst extend_right.simps) simp
next
  case (Suc d)
  then have "extend_right s s n n (0, 0, m + 1) = (0, 0, n)"
    by (intro Suc.hyps(1)) auto
  moreover have "m < n" using Suc.hyps(2) by simp
  ultimately show ?case by (subst extend_right.simps) simp
qed

lemma find_longest_match_same:
  "find_longest_match s s (chain_b s) 0 (length s) 0 (length s) = (0, 0, length s)"
proof -
  let ?n = "length s"
  obtain m best where ml:
    "main_loop s (chain_b s) 0 ?n [0..<?n] (Map.empty, (0, 0, 0)) = (m, best)"
    by (cases "main_loop s (chain_b s) 0 ?n [0..<?n] (Map.empty, (0, 0, 0))") auto
  have keys: "\<forall>i<?n. \<forall>js. chain_b s (s ! i) = Some js \<longrightarrow>
                sorted js \<and> i \<in> set js \<and> (\<forall>j\<in>set js. j < ?n \<and> chain_b s (s ! j) \<noteq> None)"
    using chain_b_keys by blast
  have "diag_best (chain_b s) s ?n best"
    by (rule main_diag[OF keys _ _ _ ml]) (simp_all add: prev_ok_def diag_best_def)
  then obtain p bestsize where best: "best = (p, p, bestsize)"
    by (cases best) (auto simp: diag_best_def)
  have "best_within 0 (max 0 ?n) best"
    by (rule main_loop_bounds[OF _ _ _ ml]) (auto simp: j2len_bounded_def best_within_def)
  then have le: "bestsize + p \<le> ?n"
    by (simp add: best best_within_def)
  show ?thesis
    by (simp add: find_longest_match_def ml best extend_left_same extend_right_same[OF le])
qed

section \<open>The claims about \<open>similar\<close>\<close>

text \<open>
  C7. For every string \<open>s\<close>, \<open>similar(s, s)\<close> is exactly 1: one block covers the whole
  string (also when popular elements are left out of \<open>b2j\<close>, for 200 elements and more),
  and for the empty string \<open>_calculate_ratio\<close> returns 1.
\<close>

theorem similar_identical: "similar s s = 1"
proof (cases "s = []")
  case True
  then show ?thesis
    by (simp add: similar_def ratio_def calculate_ratio_def)
next
  case False
  then have n: "length s \<noteq> 0" by simp
  have mbl: "matching_blocks_loop s s (chain_b s) [(0, length s, 0, length s)] [] = [(0, 0, length s)]"
    using n by (simp add: find_longest_match_same)
  have "get_matching_blocks s s = [(0, 0, length s), (length s, length s, 0)]"
    using n by (simp only: get_matching_blocks_def Let_def mbl) simp
  then show ?thesis
    using n by (simp add: similar_def ratio_def calculate_ratio_def)
qed

text \<open>
  C8, as stated, fails at the two empty strings: they share no character, and
  \<open>_calculate_ratio(0, 0)\<close> is 1, not 0.
\<close>

theorem similar_empty_strings:
  "set ([] :: nat list) \<inter> set ([] :: nat list) = {} \<and> similar ([] :: nat list) [] = 1"
  by (simp add: similar_def ratio_def calculate_ratio_def)

text \<open>
  C8, amended. For every pair of strings that share no character and are not both
  empty, \<open>similar(a, b)\<close> is exactly 0.
\<close>

theorem similar_disjoint:
  assumes "set a \<inter> set b = {}" and "a \<noteq> [] \<or> b \<noteq> []"
  shows "similar a b = 0"
proof -
  have "get_matching_blocks a b = [(length a, length b, 0)]"
    by (simp add: get_matching_blocks_def find_longest_match_disjoint[OF assms(1)])
  then show ?thesis
    using assms(2) by (simp add: similar_def ratio_def calculate_ratio_def)
qed

theorem similar_disjoint_witness:
  "set (lit ''abc'') \<inter> set (lit ''xy'') = {} \<and> similar (lit ''abc'') (lit ''xy'') = 0"
proof -
  have d: "set (lit ''abc'') \<inter> set (lit ''xy'') = {}"
    by (simp add: lit_def)
  have n: "lit ''abc'' \<noteq> [] \<or> lit ''xy'' \<noteq> []"
    by (simp add: lit_def)
  from d similar_disjoint[OF d n] show ?thesis by (rule conjI)
qed

section \<open>Registry answers and bibliographies for concrete runs\<close>

definition title1 :: json where
  "title1 = JStr (lit ''Some Title'')"

definition smith_body :: json where
  "smith_body =
     JObj [(lit ''message'', JObj [(lit ''items'',
       JArr [JObj [(lit ''DOI'', JStr (lit ''10.1/X'')),
                   (lit ''author'', JArr [JObj [(lit ''family'', JStr (lit ''Smith''))]])]])])]"

definition body_of_item :: "json \<Rightarrow> json list \<Rightarrow> json" where
  "body_of_item item others =
     JObj [(lit ''message'', JObj [(lit ''items'', JArr (item # others))])]"

definition item_of :: "json \<Rightarrow> json list \<Rightarrow> json" where
  "item_of doi families =
     JObj [(lit ''DOI'', doi),
           (lit ''author'', JArr (map (\<lambda>f. JObj [(lit ''family'', f)]) families))]"

text \<open>A bibliography entry without a DOI, one that has a DOI already, and a registry
  answer whose only author has the family name \<open>null\<close>.\<close>

definition smith_entry :: entry where
  "smith_entry =
     \<lparr>entry_fields = [lit ''title'' \<mapsto> title1],
      entry_persons = [lit ''author'' \<mapsto> [\<lparr>last_names = [lit ''Smith'']\<rparr>]]\<rparr>"

definition done_entry :: entry where
  "done_entry =
     \<lparr>entry_fields = [lit ''title'' \<mapsto> title1, lit ''doi'' \<mapsto> JStr (lit ''10.9/Z'')],
      entry_persons = [lit ''author'' \<mapsto> [\<lparr>last_names = [lit ''Smith'']\<rparr>]]\<rparr>"


text \<open>An entry whose first author has no last name.\<close>

definition nameless_entry :: entry where
  "nameless_entry =
     \<lparr>entry_fields = [lit ''title'' \<mapsto> title1],
      entry_persons = [lit ''author'' \<mapsto> [\<lparr>last_names = []\<rparr>]]\<rparr>"

section \<open>Predicates of the claims about a run\<close>

text \<open>
  The match decision is positive on a registry answer: the answer is a decoded body, it
  has a top item, one of that item's candidate authors is a string accepted by the rule
  for the requested author, and \<open>doi\<close> is what the item's \<open>get("DOI")\<close> gives.
\<close>

definition positive_match :: "(str \<Rightarrow> str) \<Rightarrow> exn + json \<Rightarrow> str \<Rightarrow> json \<Rightarrow> bool" where
  "positive_match lower response author doi =
     (case response of
        Inl e \<Rightarrow> False
      | Inr data \<Rightarrow>
          (case top_result data of
             Inr (Some (item, crossref_authors)) \<Rightarrow>
               list_ex (\<lambda>c. case c of JStr candidate \<Rightarrow>
                               4 / 5 < similar (lower candidate) (lower author)
                             | _ \<Rightarrow> False) crossref_authors
               \<and> py_get item (lit ''DOI'') JNull = Inr doi
           | _ \<Rightarrow> False))"

text \<open>
  An assignment \<open>w\<close> (entry key and value) is justified in a run that queried the titles
  \<open>queried\<close>: the key is that of an entry without a \<open>doi\<close> field, and one of the queries
  (the \<open>n\<close>-th, from \<open>lo\<close> on) was sent for that entry's title, with a positive match
  decision for the first last name of its first author and the value written.
\<close>

definition write_justified ::
  "(str \<Rightarrow> str) \<Rightarrow> (nat \<Rightarrow> json \<Rightarrow> exn + json) \<Rightarrow> (str \<times> entry) list \<Rightarrow> json list \<Rightarrow> nat
     \<Rightarrow> str \<times> json \<Rightarrow> bool" where
  "write_justified lower reg entries queried lo w =
     (\<exists>entry n p ps first_author others.
        (fst w, entry) \<in> set entries
        \<and> entry_fields entry (lit ''doi'') = None
        \<and> lo \<le> n \<and> n < length queried
        \<and> entry_fields entry (lit ''title'') = Some (queried ! n)
        \<and> entry_persons entry (lit ''author'') = Some (p # ps)
        \<and> last_names p = first_author # others
        \<and> positive_match lower (reg n (queried ! n)) first_author (snd w))"







section \<open>Facts about \<open>search_doi\<close>\<close>

lemma py_in_dict: "py_in key (JObj kvs) = Inr (map_of kvs key \<noteq> None)"
  by (simp add: map_of_eq_None_iff)

lemma top_result_no_message:
  "map_of body (lit ''message'') = None \<Longrightarrow> top_result (JObj body) = Inr None"
  by (simp add: top_result_def and_then_def py_in_dict del: py_in.simps)

lemma top_result_no_items:
  "map_of body (lit ''message'') = Some (JObj message) \<Longrightarrow> map_of message (lit ''items'') = Some (JArr [])
    \<Longrightarrow> top_result (JObj body) = Inr None"
  by (simp add: top_result_def and_then_def py_in_dict del: py_in.simps)

lemma top_result_item:
  "map_of body (lit ''message'') = Some (JObj message)
    \<Longrightarrow> map_of message (lit ''items'') = Some (JArr (JObj item # others))
    \<Longrightarrow> top_result (JObj body) =
        and_then (py_iter (case map_of item (lit ''author'') of Some v \<Rightarrow> v | None \<Rightarrow> JArr []))
          (\<lambda>author_list. and_then (family_names author_list)
             (\<lambda>crossref_authors. Inr (Some (JObj item, crossref_authors))))"
  by (simp add: top_result_def and_then_def py_in_dict del: py_in.simps)

lemma match_loop_skip:
  "\<forall>p\<in>set pre. \<not> 4 / 5 < similar (lower p) (lower author)
    \<Longrightarrow> match_loop lower item author (map JStr pre @ rest) = match_loop lower item author rest"
  by (induction pre) (simp_all add: and_then_def)

lemma family_names_append:
  "family_names (xs @ ys) =
     and_then (family_names xs) (\<lambda>fs. and_then (family_names ys) (\<lambda>gs. Inr (fs @ gs)))"
  by (induction xs) (auto simp: and_then_def split: sum.splits)

lemma family_names_skip:
  "map_of author_record (lit ''family'') = None
    \<Longrightarrow> family_names (xs @ JObj author_record # ys) = family_names (xs @ ys)"
  by (simp add: family_names_append and_then_def py_in_dict del: py_in.simps)

lemma sim_Smith_SMITH: "similar (ascii_lower (lit ''Smith'')) (ascii_lower (lit ''SMITH'')) = 1"
  by code_simp

lemma sim_Smyth_Smith: "similar (ascii_lower (lit ''Smyth'')) (ascii_lower (lit ''Smith'')) = 4 / 5"
  by code_simp

lemma sim_Jones_Smith: "similar (ascii_lower (lit ''Jones'')) (ascii_lower (lit ''Smith'')) = 1 / 5"
  by code_simp

lemma sim_Smith_Smith: "similar (ascii_lower (lit ''Smith'')) (ascii_lower (lit ''Smith'')) = 1"
  by code_simp

lemma map_of_message: "map_of [(lit ''message'', v)] (lit ''message'') = Some v"
  by simp

lemma map_of_items: "map_of [(lit ''items'', v)] (lit ''items'') = Some v"
  by simp

lemma map_of_DOI_author:
  "map_of [(lit ''DOI'', d), (lit ''author'', v)] (lit ''author'') = Some v"
  "map_of [(lit ''DOI'', d), (lit ''author'', v)] (lit ''DOI'') = Some d"
  by (simp_all add: lit_def)

lemma family_names_strings:
  "family_names (map (\<lambda>f. JObj [(lit ''family'', f)]) fs) = Inr fs"
  by (induction fs) (simp_all add: and_then_def)

section \<open>The claims about \<open>search_doi\<close>\<close>

text \<open>
  C1. A top item with one author record, whose family name is the string \<open>candidate\<close>:
  the search returns the item's \<open>DOI\<close> exactly when
  \<open>similar(candidate.lower(), author.lower()) > 0.8\<close>, and \<open>None\<close> otherwise. The
  threshold is the constant \<open>0.8\<close> and the comparison is strict.
\<close>

theorem search_doi_single_candidate:
  assumes "reg (length queried) title = Inr (JObj body)"
    and "map_of body (lit ''message'') = Some (JObj message)"
    and "map_of message (lit ''items'') = Some (JArr (JObj item # others))"
    and "map_of item (lit ''author'') = Some (JArr [JObj author_record])"
    and "map_of author_record (lit ''family'') = Some (JStr candidate)"
  shows "search_doi lower reg title author queried =
           (queried @ [title],
            Inr (if similar (lower candidate) (lower author) > 4 / 5
                 then (case map_of item (lit ''DOI'') of Some doi \<Rightarrow> doi | None \<Rightarrow> JNull)
                 else JNull))"
  using assms
  by (simp add: search_doi_def search_doi_try_def top_result_item and_then_def py_in_dict del: py_in.simps)

text \<open>
  At \<open>Smith\<close> against the requested \<open>SMITH\<close> the ratio is 1 and the DOI is returned; at
  \<open>Smyth\<close> against \<open>Smith\<close> the ratio is exactly 0.8 and the candidate is refused.
\<close>

theorem search_doi_single_candidate_witness:
  "search_doi ascii_lower
      (\<lambda>n t. Inr (body_of_item (item_of (JStr (lit ''10.1/X'')) [JStr (lit ''Smith'')]) []))
      title1 (lit ''SMITH'') [] = ([title1], Inr (JStr (lit ''10.1/X'')))
   \<and> search_doi ascii_lower
      (\<lambda>n t. Inr (body_of_item (item_of (JStr (lit ''10.1/X'')) [JStr (lit ''Smyth'')]) []))
      title1 (lit ''Smith'') [] = ([title1], Inr JNull)"
proof -
  have 1: "search_doi ascii_lower
      (\<lambda>n t. Inr (body_of_item (item_of (JStr (lit ''10.1/X'')) [JStr (lit ''Smith'')]) []))
      title1 (lit ''SMITH'') [] = ([title1], Inr (JStr (lit ''10.1/X'')))"
    using search_doi_single_candidate
            [where reg = "\<lambda>n t. Inr (body_of_item (item_of (JStr (lit ''10.1/X'')) [JStr (lit ''Smith'')]) [])"
               and queried = "[]" and title = title1 and lower = ascii_lower
               and author = "lit ''SMITH''"
               and body = "[(lit ''message'', JObj [(lit ''items'', JArr [item_of (JStr (lit ''10.1/X'')) [JStr (lit ''Smith'')]])])]"
               and message = "[(lit ''items'', JArr [item_of (JStr (lit ''10.1/X'')) [JStr (lit ''Smith'')]])]"
               and item = "[(lit ''DOI'', JStr (lit ''10.1/X'')), (lit ''author'', JArr [JObj [(lit ''family'', JStr (lit ''Smith''))]])]"
               and others = "[]"
               and author_record = "[(lit ''family'', JStr (lit ''Smith''))]"
               and candidate = "lit ''Smith''"]
    by (simp add: body_of_item_def item_of_def sim_Smith_SMITH) (simp add: lit_def)
  have 2: "search_doi ascii_lower
      (\<lambda>n t. Inr (body_of_item (item_of (JStr (lit ''10.1/X'')) [JStr (lit ''Smyth'')]) []))
      title1 (lit ''Smith'') [] = ([title1], Inr JNull)"
    using search_doi_single_candidate
            [where reg = "\<lambda>n t. Inr (body_of_item (item_of (JStr (lit ''10.1/X'')) [JStr (lit ''Smyth'')]) [])"
               and queried = "[]" and title = title1 and lower = ascii_lower
               and author = "lit ''Smith''"
               and body = "[(lit ''message'', JObj [(lit ''items'', JArr [item_of (JStr (lit ''10.1/X'')) [JStr (lit ''Smyth'')]])])]"
               and message = "[(lit ''items'', JArr [item_of (JStr (lit ''10.1/X'')) [JStr (lit ''Smyth'')]])]"
               and item = "[(lit ''DOI'', JStr (lit ''10.1/X'')), (lit ''author'', JArr [JObj [(lit ''family'', JStr (lit ''Smyth''))]])]"
               and others = "[]"
               and author_record = "[(lit ''family'', JStr (lit ''Smyth''))]"
               and candidate = "lit ''Smyth''"]
    by (simp add: body_of_item_def item_of_def sim_Smyth_Smith) (simp add: lit_def)
  from 1 2 show ?thesis by simp
qed



text \<open>
  C3. On a decoded body \<open>{"message": {"items": [item, ...]}}\<close> the search looks at the
  first item alone: whatever the other items are, with the family names of the first
  item being strings \<open>pre\<close> that do not match followed by \<open>rest\<close>, the search returns
  \<open>None\<close> when \<open>rest\<close> is empty, and the first item's \<open>DOI\<close> when \<open>rest\<close> starts with a
  string that matches, whatever comes after it.
\<close>

theorem search_doi_top_item_first_match:
  assumes "reg (length queried) title = Inr (JObj body)"
    and "map_of body (lit ''message'') = Some (JObj message)"
    and "map_of message (lit ''items'') = Some (JArr (JObj item # others))"
    and "map_of item (lit ''author'') = Some (JArr records)"
    and "family_names records = Inr (map JStr pre @ rest)"
    and "\<forall>p\<in>set pre. \<not> 4 / 5 < similar (lower p) (lower author)"
  shows "(rest = [] \<longrightarrow> search_doi lower reg title author queried = (queried @ [title], Inr JNull))
       \<and> (\<forall>c post. rest = JStr c # post \<and> 4 / 5 < similar (lower c) (lower author) \<longrightarrow>
            search_doi lower reg title author queried =
              (queried @ [title],
               Inr (case map_of item (lit ''DOI'') of Some doi \<Rightarrow> doi | None \<Rightarrow> JNull)))"
proof -
  have "search_doi_try lower (reg (length queried) title) author =
          match_loop lower (JObj item) author rest"
    using assms
    by (simp add: search_doi_try_def top_result_item and_then_def match_loop_skip)
  then show ?thesis
    by (auto simp: search_doi_def and_then_def)
qed

text \<open>
  A first item with the families \<open>Jones\<close>, \<open>Smith\<close> and \<open>null\<close>, followed by a second
  item that is \<open>null\<close>: the search returns at \<open>Smith\<close>. A first item with \<open>Jones\<close> alone,
  followed by an item that would match: the search returns \<open>None\<close>.
\<close>

theorem search_doi_top_item_first_match_witness:
  "search_doi ascii_lower
      (\<lambda>n t. Inr (body_of_item
         (item_of (JStr (lit ''10.1/X'')) [JStr (lit ''Jones''), JStr (lit ''Smith''), JNull])
         [JNull]))
      title1 (lit ''Smith'') [] = ([title1], Inr (JStr (lit ''10.1/X'')))
   \<and> search_doi ascii_lower
      (\<lambda>n t. Inr (body_of_item
         (item_of (JStr (lit ''10.1/X'')) [JStr (lit ''Jones'')])
         [item_of (JStr (lit ''10.2/Y'')) [JStr (lit ''Smith'')]]))
      title1 (lit ''Smith'') [] = ([title1], Inr JNull)"
proof -
  let ?reg1 = "\<lambda>(n::nat) (t::json). (Inr (body_of_item
         (item_of (JStr (lit ''10.1/X'')) [JStr (lit ''Jones''), JStr (lit ''Smith''), JNull])
         [JNull]) :: exn + json)"
  let ?reg2 = "\<lambda>(n::nat) (t::json). (Inr (body_of_item
         (item_of (JStr (lit ''10.1/X'')) [JStr (lit ''Jones'')])
         [item_of (JStr (lit ''10.2/Y'')) [JStr (lit ''Smith'')]]) :: exn + json)"
  have r1: "?reg1 (length ([]::json list)) title1 =
          Inr (JObj [(lit ''message'', JObj [(lit ''items'',
            JArr (JObj [(lit ''DOI'', JStr (lit ''10.1/X'')),
                        (lit ''author'', JArr (map (\<lambda>f. JObj [(lit ''family'', f)])
                           [JStr (lit ''Jones''), JStr (lit ''Smith''), JNull]))] # [JNull]))])])"
    by (simp only: body_of_item_def item_of_def)
  have r2: "?reg2 (length ([]::json list)) title1 =
          Inr (JObj [(lit ''message'', JObj [(lit ''items'',
            JArr (JObj [(lit ''DOI'', JStr (lit ''10.1/X'')),
                        (lit ''author'', JArr (map (\<lambda>f. JObj [(lit ''family'', f)])
                           [JStr (lit ''Jones'')]))]
                  # [item_of (JStr (lit ''10.2/Y'')) [JStr (lit ''Smith'')]]))])])"
    by (simp only: body_of_item_def item_of_def)
  have f1: "family_names (map (\<lambda>f. JObj [(lit ''family'', f)])
              [JStr (lit ''Jones''), JStr (lit ''Smith''), JNull])
            = Inr (map JStr [lit ''Jones''] @ (JStr (lit ''Smith'') # [JNull]))"
    unfolding family_names_strings by simp
  have f2: "family_names (map (\<lambda>f. JObj [(lit ''family'', f)]) [JStr (lit ''Jones'')])
            = Inr (map JStr [lit ''Jones''] @ [])"
    unfolding family_names_strings by simp
  have n: "\<forall>p\<in>set [lit ''Jones'']. \<not> 4 / 5 < similar (ascii_lower p) (ascii_lower (lit ''Smith''))"
    by (simp add: sim_Jones_Smith)
  have y: "4 / 5 < similar (ascii_lower (lit ''Smith'')) (ascii_lower (lit ''Smith''))"
    by (simp add: sim_Smith_Smith)
  note t1 = search_doi_top_item_first_match
              [where lower = ascii_lower and author = "lit ''Smith''" and reg = "?reg1"
                 and queried = "[]" and title = title1,
               OF r1 map_of_message map_of_items map_of_DOI_author(1) f1 n]
  note t2 = search_doi_top_item_first_match
              [where lower = ascii_lower and author = "lit ''Smith''" and reg = "?reg2"
                 and queried = "[]" and title = title1,
               OF r2 map_of_message map_of_items map_of_DOI_author(1) f2 n]
  have 1: "search_doi ascii_lower ?reg1 title1 (lit ''Smith'') [] = ([title1], Inr (JStr (lit ''10.1/X'')))"
    using t1 [THEN conjunct2, THEN spec, THEN spec, THEN mp, OF conjI, OF refl y]
    by (simp only: map_of_DOI_author option.case append.simps)
  have 2: "search_doi ascii_lower ?reg2 title1 (lit ''Smith'') [] = ([title1], Inr JNull)"
    using t2 [THEN conjunct1, THEN mp, OF refl]
    by (simp only: append.simps)
  from 1 2 show ?thesis by (rule conjI)
qed

text \<open>
  C4. A decoded body that is an object without the key \<open>"message"\<close>, or whose
  \<open>"message"\<close> object holds an empty \<open>"items"\<close> list: \<open>search_doi\<close> returns \<open>None\<close> and
  raises nothing.
\<close>

theorem search_doi_no_result:
  assumes "reg (length queried) title = Inr (JObj body)"
    and "map_of body (lit ''message'') = None
       \<or> (\<exists>message. map_of body (lit ''message'') = Some (JObj message)
             \<and> map_of message (lit ''items'') = Some (JArr []))"
  shows "search_doi lower reg title author queried = (queried @ [title], Inr JNull)"
proof -
  have "top_result (JObj body) = Inr None"
    using assms(2) top_result_no_message top_result_no_items by blast
  then show ?thesis
    using assms(1) by (simp add: search_doi_def search_doi_try_def and_then_def)
qed

theorem search_doi_no_result_witness:
  "search_doi ascii_lower (\<lambda>n t. Inr (JObj [(lit ''status'', JStr (lit ''ok''))])) title1
      (lit ''Smith'') [] = ([title1], Inr JNull)
   \<and> search_doi ascii_lower (\<lambda>n t. Inr (JObj [(lit ''message'', JObj [(lit ''items'', JArr [])])]))
      title1 (lit ''Smith'') [] = ([title1], Inr JNull)"
proof -
  have a: "map_of [(lit ''status'', JStr (lit ''ok''))] (lit ''message'') = None
       \<or> (\<exists>message. map_of [(lit ''status'', JStr (lit ''ok''))] (lit ''message'') = Some (JObj message)
             \<and> map_of message (lit ''items'') = Some (JArr []))"
    by (simp add: lit_def)
  have b: "map_of [(lit ''message'', JObj [(lit ''items'', JArr [])])] (lit ''message'') = None
       \<or> (\<exists>message. map_of [(lit ''message'', JObj [(lit ''items'', JArr [])])] (lit ''message'') = Some (JObj message)
             \<and> map_of message (lit ''items'') = Some (JArr []))"
    by (simp add: lit_def)
  show ?thesis
    using search_doi_no_result
            [where reg = "\<lambda>n t. Inr (JObj [(lit ''status'', JStr (lit ''ok''))])"
               and queried = "[]" and title = title1 and lower = ascii_lower
               and author = "lit ''Smith''", OF _ a]
          search_doi_no_result
            [where reg = "\<lambda>n t. Inr (JObj [(lit ''message'', JObj [(lit ''items'', JArr [])])])"
               and queried = "[]" and title = title1 and lower = ascii_lower
               and author = "lit ''Smith''", OF _ b]
    by simp
qed

text \<open>
  C10. On a decoded body whose first item is an object: when the item has no
  \<open>"author"\<close> key the search returns \<open>None\<close>; when an author matches and the item has no
  \<open>"DOI"\<close> key the search returns \<open>None\<close>; an author record without the key \<open>"family"\<close>
  adds nothing to \<open>crossref_authors\<close>, which is computed as if the record were not there.
\<close>

theorem search_doi_missing_keys:
  assumes "reg (length queried) title = Inr (JObj body)"
    and "map_of body (lit ''message'') = Some (JObj message)"
    and "map_of message (lit ''items'') = Some (JArr (JObj item # others))"
  shows "(map_of item (lit ''author'') = None \<longrightarrow>
            search_doi lower reg title author queried = (queried @ [title], Inr JNull))
       \<and> (\<forall>records pre c post.
            map_of item (lit ''author'') = Some (JArr records)
            \<and> family_names records = Inr (map JStr pre @ JStr c # post)
            \<and> (\<forall>p\<in>set pre. \<not> 4 / 5 < similar (lower p) (lower author))
            \<and> 4 / 5 < similar (lower c) (lower author)
            \<and> map_of item (lit ''DOI'') = None \<longrightarrow>
            search_doi lower reg title author queried = (queried @ [title], Inr JNull))
       \<and> (\<forall>xs author_record ys.
            map_of item (lit ''author'') = Some (JArr (xs @ JObj author_record # ys))
            \<and> map_of author_record (lit ''family'') = None \<longrightarrow>
            top_result (JObj body) =
              and_then (family_names (xs @ ys))
                (\<lambda>crossref_authors. Inr (Some (JObj item, crossref_authors))))"
proof (intro conjI allI impI)
  assume "map_of item (lit ''author'') = None"
  then show "search_doi lower reg title author queried = (queried @ [title], Inr JNull)"
    using assms
    by (simp add: search_doi_def search_doi_try_def top_result_item and_then_def)
next
  fix records pre c post
  assume h: "map_of item (lit ''author'') = Some (JArr records)
            \<and> family_names records = Inr (map JStr pre @ JStr c # post)
            \<and> (\<forall>p\<in>set pre. \<not> 4 / 5 < similar (lower p) (lower author))
            \<and> 4 / 5 < similar (lower c) (lower author)
            \<and> map_of item (lit ''DOI'') = None"
  then have "search_doi_try lower (reg (length queried) title) author =
          match_loop lower (JObj item) author (JStr c # post)"
    using assms
    by (simp add: search_doi_try_def top_result_item and_then_def match_loop_skip)
  then show "search_doi lower reg title author queried = (queried @ [title], Inr JNull)"
    using h by (simp add: search_doi_def and_then_def)
next
  fix xs author_record ys
  assume "map_of item (lit ''author'') = Some (JArr (xs @ JObj author_record # ys))
            \<and> map_of author_record (lit ''family'') = None"
  then show "top_result (JObj body) =
              and_then (family_names (xs @ ys))
                (\<lambda>crossref_authors. Inr (Some (JObj item, crossref_authors)))"
    using assms(2,3) by (simp add: top_result_item family_names_skip and_then_def)
qed

theorem search_doi_missing_keys_witness:
  "search_doi ascii_lower
      (\<lambda>n t. Inr (body_of_item (JObj [(lit ''DOI'', JStr (lit ''10.1/X''))]) []))
      title1 (lit ''Smith'') [] = ([title1], Inr JNull)
   \<and> search_doi ascii_lower
      (\<lambda>n t. Inr (body_of_item
         (JObj [(lit ''author'', JArr [JObj [(lit ''family'', JStr (lit ''Smith''))]])]) []))
      title1 (lit ''Smith'') [] = ([title1], Inr JNull)
   \<and> top_result (body_of_item
         (JObj [(lit ''author'', JArr [JObj [(lit ''name'', JStr (lit ''ACME''))],
                                       JObj [(lit ''family'', JStr (lit ''Smith''))]])]) [])
       = Inr (Some (JObj [(lit ''author'', JArr [JObj [(lit ''name'', JStr (lit ''ACME''))],
                                       JObj [(lit ''family'', JStr (lit ''Smith''))]])],
                    [JStr (lit ''Smith'')]))"
proof -
  let ?i1 = "[(lit ''DOI'', JStr (lit ''10.1/X''))]"
  let ?i2 = "[(lit ''author'', JArr [JObj [(lit ''family'', JStr (lit ''Smith''))]])]"
  let ?i3 = "[(lit ''author'', JArr [JObj [(lit ''name'', JStr (lit ''ACME''))],
                                       JObj [(lit ''family'', JStr (lit ''Smith''))]])]"
  let ?reg1 = "\<lambda>(n::nat) (t::json). (Inr (body_of_item (JObj ?i1) []) :: exn + json)"
  let ?reg2 = "\<lambda>(n::nat) (t::json). (Inr (body_of_item (JObj ?i2) []) :: exn + json)"
  let ?reg3 = "\<lambda>(n::nat) (t::json). (Inr (body_of_item (JObj ?i3) []) :: exn + json)"
  have r: "(Inr (body_of_item (JObj i) []) :: exn + json) =
          Inr (JObj [(lit ''message'', JObj [(lit ''items'', JArr (JObj i # []))])])" for i
    by (simp only: body_of_item_def)
  note t1 = search_doi_missing_keys
              [where lower = ascii_lower and author = "lit ''Smith''" and reg = "?reg1"
                 and queried = "[]" and title = title1, OF r map_of_message map_of_items]
  note t2 = search_doi_missing_keys
              [where lower = ascii_lower and author = "lit ''Smith''" and reg = "?reg2"
                 and queried = "[]" and title = title1, OF r map_of_message map_of_items]
  note t3 = search_doi_missing_keys
              [where lower = ascii_lower and author = "lit ''Smith''" and reg = "?reg3"
                 and queried = "[]" and title = title1, OF r map_of_message map_of_items]
  have a1: "map_of ?i1 (lit ''author'') = None"
    by (simp add: lit_def)
  have 1: "search_doi ascii_lower ?reg1 title1 (lit ''Smith'') [] = ([title1], Inr JNull)"
    using t1 [THEN conjunct1, THEN mp, OF a1] by (simp only: append.simps)
  have a2: "map_of ?i2 (lit ''author'') = Some (JArr [JObj [(lit ''family'', JStr (lit ''Smith''))]])
            \<and> family_names [JObj [(lit ''family'', JStr (lit ''Smith''))]]
                = Inr (map JStr [] @ JStr (lit ''Smith'') # [])
            \<and> (\<forall>p\<in>set []. \<not> 4 / 5 < similar (ascii_lower p) (ascii_lower (lit ''Smith'')))
            \<and> 4 / 5 < similar (ascii_lower (lit ''Smith'')) (ascii_lower (lit ''Smith''))
            \<and> map_of ?i2 (lit ''DOI'') = None"
    by (simp add: and_then_def sim_Smith_Smith) (simp add: lit_def)
  have 2: "search_doi ascii_lower ?reg2 title1 (lit ''Smith'') [] = ([title1], Inr JNull)"
    using t2 [THEN conjunct2, THEN conjunct1, THEN spec, THEN spec, THEN spec, THEN spec,
              THEN mp, OF a2]
    by (simp only: append.simps)
  have a3: "map_of ?i3 (lit ''author'')
              = Some (JArr ([] @ JObj [(lit ''name'', JStr (lit ''ACME''))]
                              # [JObj [(lit ''family'', JStr (lit ''Smith''))]]))
            \<and> map_of [(lit ''name'', JStr (lit ''ACME''))] (lit ''family'') = None"
    by (simp add: lit_def)
  have 3: "top_result (body_of_item (JObj ?i3) []) = Inr (Some (JObj ?i3, [JStr (lit ''Smith'')]))"
    using t3 [THEN conjunct2, THEN conjunct2, THEN spec, THEN spec, THEN spec, THEN mp, OF a3]
    by (simp add: and_then_def body_of_item_def del: top_result_def)
  from 1 2 3 show ?thesis by (intro conjI)
qed

section \<open>Facts about \<open>process_bib_file\<close>\<close>

lemma process_entry_has_doi:
  "entry_fields entry (lit ''doi'') = Some doi
    \<Longrightarrow> process_entry lower reg entry_key entry st = (st, Inr entry)"
  by (simp add: process_entry_def)

lemma process_entries_append:
  "process_entries lower reg st (xs @ ys) =
     (case process_entries lower reg st xs of
        (st', Inl e) \<Rightarrow> (st', Inl e)
      | (st', Inr xs') \<Rightarrow>
          (case process_entries lower reg st' ys of
             (st'', Inl e) \<Rightarrow> (st'', Inl e)
           | (st'', Inr ys') \<Rightarrow> (st'', Inr (xs' @ ys'))))"
proof (induction xs arbitrary: st)
  case Nil
  show ?case by (simp split: prod.splits sum.splits)
next
  case (Cons x xs)
  obtain k e where x: "x = (k, e)" by (cases x)
  show ?case
    by (simp add: x Cons.IH split: prod.splits sum.splits)
qed

lemma process_entries_keys:
  "process_entries lower reg st xs = (st', Inr xs') \<Longrightarrow> map fst xs' = map fst xs"
proof (induction xs arbitrary: st xs')
  case Nil
  then show ?case by simp
next
  case (Cons x xs)
  obtain k e where x: "x = (k, e)" by (cases x)
  from Cons.prems show ?case
    by (auto simp: x split: prod.splits sum.splits dest: Cons.IH)
qed

lemma process_entries_skip:
  assumes "entry_fields entry (lit ''doi'') = Some doi"
  shows "process_entries lower reg st (pre @ (entry_key, entry) # post) =
     (case process_entries lower reg st (pre @ post) of
        (st', Inl e) \<Rightarrow> (st', Inl e)
      | (st', Inr out) \<Rightarrow>
          (st', Inr (take (length pre) out @ (entry_key, entry) # drop (length pre) out)))"
proof (cases "process_entries lower reg st pre")
  case (Pair st1 r1)
  show ?thesis
  proof (cases r1)
    case (Inl e)
    with Pair show ?thesis by (simp add: process_entries_append)
  next
    case (Inr pre')
    have len: "length pre' = length pre"
      using process_entries_keys[OF Pair[unfolded Inr]] by (metis length_map)
    show ?thesis
      using Pair Inr len assms
      by (simp add: process_entries_append process_entry_has_doi split: prod.splits sum.splits)
  qed
qed

lemma match_loop_Some:
  "match_loop lower item author cas = Inr (Some doi)
    \<Longrightarrow> list_ex (\<lambda>c. case c of JStr candidate \<Rightarrow> 4 / 5 < similar (lower candidate) (lower author)
                       | _ \<Rightarrow> False) cas
        \<and> py_get item (lit ''DOI'') JNull = Inr doi"
proof (induction cas)
  case Nil
  then show ?case by simp
next
  case (Cons c cas)
  show ?case
  proof (cases c)
    case (JStr s)
    with Cons show ?thesis
      by (auto simp: and_then_def split: if_splits sum.splits)
  qed (use Cons.prems in \<open>simp_all add: and_then_def\<close>)
qed

lemma search_doi_truthy:
  assumes "search_doi lower reg title author cs = (cs', Inr doi)" "truthy doi"
  shows "cs' = cs @ [title] \<and> positive_match lower (reg (length cs) title) author doi"
proof -
  have cs': "cs' = cs @ [title]"
    using assms(1) by (simp add: search_doi_def)
  have "search_doi_try lower (reg (length cs) title) author = Inr (Some doi)"
    using assms by (auto simp: search_doi_def split: sum.splits exn.splits option.splits)
  then have "positive_match lower (reg (length cs) title) author doi"
    by (auto simp: search_doi_try_def positive_match_def and_then_def
             split: sum.splits option.splits dest: match_loop_Some)
  with cs' show ?thesis by simp
qed

lemma search_doi_calls:
  "search_doi lower reg title author cs = (cs', r) \<Longrightarrow> cs' = cs @ [title]"
  by (simp add: search_doi_def)

lemma process_entry_cases:
  assumes "process_entry lower reg k e st = (st', r)"
  shows "(doi_writes st' = doi_writes st
            \<and> (calls st' = calls st \<or> (\<exists>t. calls st' = calls st @ [t])))
       \<or> (\<exists>d t p ps a others.
            doi_writes st' = doi_writes st @ [(k, d)] \<and> calls st' = calls st @ [t]
            \<and> entry_fields e (lit ''doi'') = None
            \<and> entry_fields e (lit ''title'') = Some t
            \<and> entry_persons e (lit ''author'') = Some (p # ps)
            \<and> last_names p = a # others
            \<and> positive_match lower (reg (length (calls st)) t) a d)"
proof (cases "entry_fields e (lit ''doi'') = None
              \<and> truthy (case entry_fields e (lit ''title'') of Some t \<Rightarrow> t | None \<Rightarrow> JStr [])
              \<and> (case entry_persons e (lit ''author'') of Some ps \<Rightarrow> ps | None \<Rightarrow> []) \<noteq> []")
  case False
  then have "st' = st"
    using assms by (auto simp: process_entry_def Let_def split: if_splits)
  then show ?thesis by simp
next
  case True
  then obtain t where t: "entry_fields e (lit ''title'') = Some t" "truthy t"
    by (cases "entry_fields e (lit ''title'')") auto
  from True obtain p ps where ps: "entry_persons e (lit ''author'') = Some (p # ps)"
    by (cases "entry_persons e (lit ''author'')"; cases "the (entry_persons e (lit ''author''))") auto
  show ?thesis
  proof (cases "last_names p")
    case Nil
    then have "st' = st"
      using assms True t ps by (simp add: process_entry_def)
    then show ?thesis by simp
  next
    case (Cons a others)
    obtain cs' res where sd: "search_doi lower reg t a (calls st) = (cs', res)"
      by (cases "search_doi lower reg t a (calls st)")
    have cs': "cs' = calls st @ [t]"
      using search_doi_calls[OF sd] .
    show ?thesis
    proof (cases res)
      case (Inl ex)
      then have "st' = st\<lparr>calls := cs'\<rparr>"
        using assms True t ps Cons sd by (simp add: process_entry_def)
      then show ?thesis using cs' by simp
    next
      case (Inr d)
      show ?thesis
      proof (cases "truthy d")
        case False
        then have "st' = st\<lparr>calls := cs'\<rparr>"
          using assms True t ps Cons sd Inr by (simp add: process_entry_def)
        then show ?thesis using cs' by simp
      next
        case td: True
        then have "st' = st\<lparr>calls := cs', doi_writes := doi_writes st @ [(k, d)],
                              updated_count := updated_count st + 1\<rparr>"
          using assms True t ps Cons sd Inr by (simp add: process_entry_def)
        moreover have "positive_match lower (reg (length (calls st)) t) a d"
          using search_doi_truthy[OF sd[unfolded Inr] td] by simp
        ultimately show ?thesis
          using cs' True t ps Cons by simp
      qed
    qed
  qed
qed

lemma write_justified_mono:
  assumes "write_justified lower reg entries cs lo w" "lo' \<le> lo" "set entries \<subseteq> set entries'"
  shows "write_justified lower reg entries' (cs @ extra) lo' w"
proof -
  from assms(1) obtain entry n p ps first_author others where h:
    "(fst w, entry) \<in> set entries" "entry_fields entry (lit ''doi'') = None"
    "lo \<le> n" "n < length cs" "entry_fields entry (lit ''title'') = Some (cs ! n)"
    "entry_persons entry (lit ''author'') = Some (p # ps)" "last_names p = first_author # others"
    "positive_match lower (reg n (cs ! n)) first_author (snd w)"
    unfolding write_justified_def by blast
  have nth: "(cs @ extra) ! n = cs ! n"
    using h(4) by (simp add: nth_append)
  show ?thesis
    unfolding write_justified_def
    apply (rule exI[of _ entry], rule exI[of _ n], rule exI[of _ p], rule exI[of _ ps],
           rule exI[of _ first_author], rule exI[of _ others])
    using h assms(2,3) nth by auto
qed

lemma process_entries_writes:
  assumes "process_entries lower reg st entries = (st', r)"
  shows "\<exists>ws cs. doi_writes st' = doi_writes st @ ws \<and> calls st' = calls st @ cs
           \<and> set (map fst ws) \<subseteq> set (map fst entries)
           \<and> (distinct (map fst entries) \<longrightarrow> distinct (map fst ws))
           \<and> (\<forall>w\<in>set ws. write_justified lower reg entries (calls st') (length (calls st)) w)"
  using assms
proof (induction entries arbitrary: st st' r)
  case Nil
  then show ?case by simp
next
  case (Cons x rest)
  obtain k e where x: "x = (k, e)" by (cases x)
  obtain st1 r1 where pe: "process_entry lower reg k e st = (st1, r1)"
    by (cases "process_entry lower reg k e st")
  have head: "\<exists>ws1 cs1. doi_writes st1 = doi_writes st @ ws1 \<and> calls st1 = calls st @ cs1
           \<and> set (map fst ws1) \<subseteq> {k} \<and> length ws1 \<le> 1
           \<and> (\<forall>w\<in>set ws1. write_justified lower reg [(k, e)] (calls st1) (length (calls st)) w)"
    using process_entry_cases[OF pe]
  proof (elim disjE conjE exE)
    assume "doi_writes st1 = doi_writes st" "calls st1 = calls st"
    then show ?thesis by (intro exI[of _ "[]"]) simp
  next
    fix t assume "doi_writes st1 = doi_writes st" "calls st1 = calls st @ [t]"
    then show ?thesis by (intro exI[of _ "[]"] exI[of _ "[t]"]) simp
  next
    fix d t p ps a others
    assume h: "doi_writes st1 = doi_writes st @ [(k, d)]" "calls st1 = calls st @ [t]"
      "entry_fields e (lit ''doi'') = None" "entry_fields e (lit ''title'') = Some t"
      "entry_persons e (lit ''author'') = Some (p # ps)" "last_names p = a # others"
      "positive_match lower (reg (length (calls st)) t) a d"
    have "write_justified lower reg [(k, e)] (calls st1) (length (calls st)) (k, d)"
      unfolding write_justified_def
      apply (rule exI[of _ e], rule exI[of _ "length (calls st)"], rule exI[of _ p],
             rule exI[of _ ps], rule exI[of _ a], rule exI[of _ others])
      using h by simp
    with h show ?thesis
      by (intro exI[of _ "[(k, d)]"] exI[of _ "[t]"]) simp
  qed
  then obtain ws1 cs1 where h1: "doi_writes st1 = doi_writes st @ ws1" "calls st1 = calls st @ cs1"
      "set (map fst ws1) \<subseteq> {k}" "length ws1 \<le> 1"
      "\<forall>w\<in>set ws1. write_justified lower reg [(k, e)] (calls st1) (length (calls st)) w"
    by blast
  have d1: "distinct (map fst ws1)"
    using h1(4) by (cases ws1) auto
  show ?case
  proof (cases r1)
    case (Inl ex)
    then have st': "st' = st1"
      using Cons.prems pe by (simp add: x)
    have "\<forall>w\<in>set ws1. write_justified lower reg (x # rest) (calls st1) (length (calls st)) w"
      using h1(5) write_justified_mono[where extra = "[]" and entries = "[(k, e)]" and entries' = "x # rest"]
      by (auto simp: x)
    then show ?thesis
      using h1 d1 unfolding st'
      by (intro exI[of _ ws1] exI[of _ cs1]) (auto simp: x)
  next
    case (Inr e')
    obtain st2 r2 where pr: "process_entries lower reg st1 rest = (st2, r2)"
      by (cases "process_entries lower reg st1 rest")
    have st': "st' = st2"
      using Cons.prems pe pr Inr by (auto simp: x split: sum.splits)
    from Cons.IH[OF pr] obtain ws2 cs2 where h2:
      "doi_writes st2 = doi_writes st1 @ ws2" "calls st2 = calls st1 @ cs2"
      "set (map fst ws2) \<subseteq> set (map fst rest)"
      "distinct (map fst rest) \<longrightarrow> distinct (map fst ws2)"
      "\<forall>w\<in>set ws2. write_justified lower reg rest (calls st2) (length (calls st1)) w"
      by blast
    have j1: "\<forall>w\<in>set ws1. write_justified lower reg (x # rest) (calls st2) (length (calls st)) w"
      using h1(5) write_justified_mono[where extra = cs2 and entries = "[(k, e)]" and entries' = "x # rest"]
      by (auto simp: x h2(2))
    have j2: "\<forall>w\<in>set ws2. write_justified lower reg (x # rest) (calls st2) (length (calls st)) w"
    proof
      fix w assume "w \<in> set ws2"
      then have "write_justified lower reg rest (calls st2) (length (calls st1)) w"
        using h2(5) by blast
      from write_justified_mono[where extra = "[]" and lo' = "length (calls st)" and entries' = "x # rest", OF this]
      show "write_justified lower reg (x # rest) (calls st2) (length (calls st)) w"
        by (auto simp: h1(2))
    qed
    have dist: "distinct (map fst (x # rest)) \<longrightarrow> distinct (map fst (ws1 @ ws2))"
    proof
      assume d: "distinct (map fst (x # rest))"
      then have "k \<notin> set (map fst rest)" "distinct (map fst rest)"
        by (simp_all add: x)
      then have k2: "k \<notin> set (map fst ws2)" and d2: "distinct (map fst ws2)"
        using h2(3,4) by blast+
      have "set (map fst ws1) \<inter> set (map fst ws2) = {}"
        using h1(3) k2 by blast
      then show "distinct (map fst (ws1 @ ws2))"
        using d1 d2 by simp
    qed
    have w: "doi_writes st2 = doi_writes st @ (ws1 @ ws2)"
      using h1(1) h2(1) by simp
    have c: "calls st2 = calls st @ (cs1 @ cs2)"
      using h1(2) h2(2) by simp
    have sub: "set (map fst (ws1 @ ws2)) \<subseteq> set (map fst (x # rest))"
      using h1(3) h2(3) by (auto simp: x)
    have j: "\<forall>w\<in>set (ws1 @ ws2). write_justified lower reg (x # rest) (calls st2) (length (calls st)) w"
      using j1 j2 by auto
    show ?thesis
      unfolding st' using w c sub dist j by blast
  qed
qed








lemma top_result_body_of_item:
  "top_result (body_of_item (item_of doi families) others) = Inr (Some (item_of doi families, families))"
  unfolding body_of_item_def item_of_def
  by (simp only: top_result_item[OF map_of_message map_of_items] map_of_DOI_author option.case
        py_iter.simps and_then_def sum.case family_names_strings)

lemma smith_body_eq:
  "smith_body = body_of_item (item_of (JStr (lit ''10.1/X'')) [JStr (lit ''Smith'')]) []"
  by (simp add: smith_body_def body_of_item_def item_of_def)

lemma py_get_item_of_DOI: "py_get (item_of doi families) (lit ''DOI'') dflt = Inr doi"
  unfolding item_of_def by (simp only: py_get.simps map_of_DOI_author option.case)

lemma search_smith:
  assumes "reg (length cs) t = Inr smith_body"
  shows "search_doi ascii_lower reg t (lit ''Smith'') cs = (cs @ [t], Inr (JStr (lit ''10.1/X'')))"
  using assms
  by (simp add: search_doi_def search_doi_try_def smith_body_eq top_result_body_of_item
        and_then_def sim_Smith_Smith py_get_item_of_DOI)


lemma smith_entry_fields:
  "entry_fields smith_entry (lit ''doi'') = None"
  "entry_fields smith_entry (lit ''title'') = Some title1"
  "entry_persons smith_entry (lit ''author'') = Some [\<lparr>last_names = [lit ''Smith'']\<rparr>]"
  by (simp_all add: smith_entry_def lit_def)

lemma truthy_title1: "truthy title1"
  by (simp add: title1_def lit_def)

lemma lit_Cons_nonempty: "lit (c # cs) \<noteq> []"
  by (simp add: lit_def)

lemma process_smith:
  assumes "reg (length (calls st)) title1 = Inr smith_body"
  shows "process_entry ascii_lower reg k smith_entry st =
           (st\<lparr>calls := calls st @ [title1],
               doi_writes := doi_writes st @ [(k, JStr (lit ''10.1/X''))],
               updated_count := updated_count st + 1\<rparr>,
            Inr (smith_entry\<lparr>entry_fields := (entry_fields smith_entry)(lit ''doi'' \<mapsto> JStr (lit ''10.1/X''))\<rparr>))"
  by (simp add: process_entry_def smith_entry_fields truthy_title1 search_smith[of reg "calls st" title1, OF assms] lit_Cons_nonempty)

lemma process_smith_failed:
  assumes "reg (length (calls st)) title1 = Inl RequestException"
  shows "process_entry ascii_lower reg k smith_entry st = (st\<lparr>calls := calls st @ [title1]\<rparr>, Inr smith_entry)"
  using assms
  by (simp add: process_entry_def smith_entry_fields truthy_title1 search_doi_def search_doi_try_def and_then_def)


lemma run_smith:
  "process_bib_file ascii_lower (\<lambda>n t. Inr smith_body)
      (Inr [(lit ''smith2020'', smith_entry)]) (\<lambda>out. None)
   = (\<lparr>calls = [title1], doi_writes = [(lit ''smith2020'', JStr (lit ''10.1/X''))], updated_count = 1\<rparr>,
      Inr [(lit ''smith2020'',
            smith_entry\<lparr>entry_fields := (entry_fields smith_entry)(lit ''doi'' \<mapsto> JStr (lit ''10.1/X''))\<rparr>)])"
  by (simp add: process_bib_file_def process_smith init_run_def)


section \<open>The claims about \<open>process_bib_file\<close>\<close>

text \<open>
  C5. In a run over a bibliography with distinct entry keys, whether it returns or an
  exception ends it, no entry key has two assignments of its \<open>doi\<close> field, and every
  assignment is justified: the entry had no \<open>doi\<close> field, and the query sent for its
  title came back with a top item one of whose candidate authors matches the entry's
  first author, the value written being that item's DOI.
\<close>

theorem doi_written_once_on_match:
  assumes "distinct (map fst entries)"
    and "process_bib_file lower reg (Inr entries) to_file = (st, r)"
  shows "distinct (map fst (doi_writes st))
       \<and> (\<forall>w\<in>set (doi_writes st). write_justified lower reg entries (calls st) 0 w)"
proof -
  obtain r' where "process_entries lower reg init_run entries = (st, r')"
    using assms(2)
    by (auto simp: process_bib_file_def split: prod.splits sum.splits option.splits)
  from process_entries_writes[OF this] assms(1) show ?thesis
    by (auto simp: init_run_def)
qed

text \<open>One entry without a DOI and a registry that answers with the matching \<open>Smith\<close>
  item: one assignment, justified by the one query.\<close>

theorem doi_written_once_on_match_witness:
  "doi_writes (fst (process_bib_file ascii_lower (\<lambda>n t. Inr smith_body)
      (Inr [(lit ''smith2020'', smith_entry)]) (\<lambda>out. None)))
     = [(lit ''smith2020'', JStr (lit ''10.1/X''))]
   \<and> write_justified ascii_lower (\<lambda>n t. Inr smith_body) [(lit ''smith2020'', smith_entry)]
        (calls (fst (process_bib_file ascii_lower (\<lambda>n t. Inr smith_body)
           (Inr [(lit ''smith2020'', smith_entry)]) (\<lambda>out. None))))
        0 (lit ''smith2020'', JStr (lit ''10.1/X''))"
proof -
  have d: "distinct (map fst [(lit ''smith2020'', smith_entry)])" by simp
  from doi_written_once_on_match[OF d run_smith] show ?thesis
    by (simp add: run_smith)
qed

text \<open>
  C6. An entry that has a \<open>doi\<close> field, anywhere in the bibliography: the state of the run
  (the titles queried, the assignments, the count) is that of the run over the
  bibliography without the entry, so no query is sent for it; and in the output of a
  run that returns, the entry stands unchanged at its place.
\<close>

theorem entry_with_doi_untouched:
  assumes "entry_fields entry (lit ''doi'') = Some doi"
  shows "fst (process_bib_file lower reg (Inr (pre @ (entry_key, entry) # post)) to_file)
           = fst (process_bib_file lower reg (Inr (pre @ post)) to_file')
       \<and> (\<forall>out. snd (process_bib_file lower reg (Inr (pre @ (entry_key, entry) # post)) to_file)
                   = Inr out \<longrightarrow>
              length out = length pre + 1 + length post \<and> out ! length pre = (entry_key, entry))"
proof -
  have st: "fst (process_bib_file lower reg (Inr es) tf) = fst (process_entries lower reg init_run es)"
    for es tf
    by (simp add: process_bib_file_def split: prod.splits sum.splits option.splits)
  have out: "snd (process_bib_file lower reg (Inr es) tf) = Inr out
              \<Longrightarrow> snd (process_entries lower reg init_run es) = Inr out" for es tf out
    by (simp add: process_bib_file_def split: prod.splits sum.splits option.splits)
  have a: "fst (process_entries lower reg init_run (pre @ (entry_key, entry) # post))
            = fst (process_entries lower reg init_run (pre @ post))"
    by (simp add: process_entries_skip[OF assms] split: prod.splits sum.splits)
  have b: "length out = length pre + 1 + length post \<and> out ! length pre = (entry_key, entry)"
    if "snd (process_entries lower reg init_run (pre @ (entry_key, entry) # post)) = Inr out" for out
  proof -
    obtain st' r' where pr: "process_entries lower reg init_run (pre @ post) = (st', r')"
      by (cases "process_entries lower reg init_run (pre @ post)")
    from that pr obtain out' where r': "r' = Inr out'"
      and eq: "out = take (length pre) out' @ (entry_key, entry) # drop (length pre) out'"
      by (cases r') (auto simp: process_entries_skip[OF assms])
    have o: "process_entries lower reg init_run (pre @ post) = (st', Inr out')"
      using pr r' by simp
    have "length out' = length pre + length post"
      using process_entries_keys[OF o] by (metis length_map length_append)
    then show ?thesis by (simp add: eq nth_append)
  qed
  show ?thesis
    using a b out by (simp add: st)
qed

text \<open>An entry with a DOI before one without: the one query is that of the second entry,
  and the first entry is written as it was read.\<close>

theorem entry_with_doi_untouched_witness:
  "calls (fst (process_bib_file ascii_lower (\<lambda>n t. Inr smith_body)
      (Inr [(lit ''done2019'', done_entry), (lit ''smith2020'', smith_entry)]) (\<lambda>out. None)))
     = [title1]
   \<and> snd (process_bib_file ascii_lower (\<lambda>n t. Inr smith_body)
      (Inr [(lit ''done2019'', done_entry), (lit ''smith2020'', smith_entry)]) (\<lambda>out. None))
       = Inr [(lit ''done2019'', done_entry),
              (lit ''smith2020'',
               smith_entry\<lparr>entry_fields := (entry_fields smith_entry)(lit ''doi'' \<mapsto> JStr (lit ''10.1/X''))\<rparr>)]"
proof -
  have h: "entry_fields done_entry (lit ''doi'') = Some (JStr (lit ''10.9/Z''))"
    by (simp add: done_entry_def)
  note t = entry_with_doi_untouched
             [where pre = "[]" and post = "[(lit ''smith2020'', smith_entry)]"
                and entry_key = "lit ''done2019''" and lower = ascii_lower
                and reg = "\<lambda>n t. Inr smith_body" and to_file = "\<lambda>out. None"
                and to_file' = "\<lambda>out. None", OF h]
  have 1: "calls (fst (process_bib_file ascii_lower (\<lambda>n t. Inr smith_body)
      (Inr [(lit ''done2019'', done_entry), (lit ''smith2020'', smith_entry)]) (\<lambda>out. None)))
     = [title1]"
    using t [THEN conjunct1] by (simp add: run_smith)
  have 2: "snd (process_bib_file ascii_lower (\<lambda>n t. Inr smith_body)
      (Inr [(lit ''done2019'', done_entry), (lit ''smith2020'', smith_entry)]) (\<lambda>out. None))
       = Inr [(lit ''done2019'', done_entry),
              (lit ''smith2020'',
               smith_entry\<lparr>entry_fields := (entry_fields smith_entry)(lit ''doi'' \<mapsto> JStr (lit ''10.1/X''))\<rparr>)]"
    by (simp add: process_bib_file_def process_entry_has_doi[OF h] process_smith init_run_def)
  from 1 2 show ?thesis by (rule conjI)
qed


text \<open>
  A run ends in the same way, before any query, on an entry with a title whose first
  author has no last name: \<open>authors[0].last_names[0]\<close> raises an \<open>IndexError\<close>, which
  nothing catches.
\<close>

theorem run_aborts_on_nameless_author:
  "process_bib_file ascii_lower (\<lambda>n t. Inr smith_body)
      (Inr [(lit ''anon2021'', nameless_entry)]) (\<lambda>out. None)
   = (\<lparr>calls = [], doi_writes = [], updated_count = 0\<rparr>, Inl IndexError)"
  by (simp add: process_bib_file_def process_entry_def nameless_entry_def init_run_def
        truthy_title1) (simp add: lit_def)



end
